theory Spec2Isabelle
  imports Complex_Main "HOL-Library.Word" "HOL-Library.Sublist"
begin

section \<open>Go strings and the library functions used by \<open>formatSignature\<close>\<close>

text \<open>
  A Go string is a sequence of bytes; \<^typ>\<open>string\<close> (a list of 8-bit characters) is
  exactly that.  The conversion \<^verbatim>\<open>[]byte(s)\<close> is the identity on the bytes.
\<close>

subsection \<open>Character classes of the regular expression\<close>

text \<open>
  Go's \<^verbatim>\<open>regexp\<close> (RE2 syntax): \<^verbatim>\<open>\w\<close> is \<^verbatim>\<open>[0-9A-Za-z_]\<close>, \<^verbatim>\<open>\s\<close> is
  \<^verbatim>\<open>[\t\n\f\r ]\<close> (no vertical tab), and \<^verbatim>\<open>[^)]\<close> is every character but the
  closing parenthesis.  All three are decided by single bytes: the byte \<^verbatim>\<open>0x29\<close>
  never occurs inside a multi-byte UTF-8 sequence, and a byte \<open>\<ge> 0x80\<close> is in neither
  \<^verbatim>\<open>\w\<close> nor \<^verbatim>\<open>\s\<close>.
\<close>

definition isWordChar :: "char \<Rightarrow> bool" where
  "isWordChar c =
     (let n = (of_char c :: nat)
      in (48 \<le> n \<and> n \<le> 57) \<or> (65 \<le> n \<and> n \<le> 90) \<or> n = 95 \<or> (97 \<le> n \<and> n \<le> 122))"

definition isReSpace :: "char \<Rightarrow> bool" where
  "isReSpace c = (let n = (of_char c :: nat) in n = 9 \<or> n = 10 \<or> n = 12 \<or> n = 13 \<or> n = 32)"

definition notRParen :: "char \<Rightarrow> bool" where
  "notRParen c = (c \<noteq> CHR '')'')"

subsection \<open>A backtracking matcher for sequences of quantified character classes\<close>

text \<open>
  The pattern of \<open>formatSignature\<close> is a sequence of character classes, each taken once,
  \<^verbatim>\<open>*\<close> times or \<^verbatim>\<open>+\<close> times, two of them inside a capturing group.  Go returns the
  leftmost match and, among the matches that start there, the one a backtracking
  search finds first; the greedy quantifiers try the longest repetition first.
\<close>

datatype quant = Once | Star | Plus

record atom =
  cls :: "char \<Rightarrow> bool"
  rep :: quant
  grp :: bool

fun firstSome :: "('a \<Rightarrow> 'b option) \<Rightarrow> 'a list \<Rightarrow> 'b option" where
  "firstSome f [] = None"
| "firstSome f (x # xs) = (case f x of Some y \<Rightarrow> Some y | None \<Rightarrow> firstSome f xs)"

text \<open>The lengths an atom may consume at the head of \<open>s\<close>, in the order they are tried.\<close>

definition candidates :: "atom \<Rightarrow> string \<Rightarrow> nat list" where
  "candidates a s =
     (let n = length (takeWhile (cls a) s)
      in case rep a of
           Once \<Rightarrow> (if 0 < n then [1] else [])
         | Star \<Rightarrow> rev [0 ..< Suc n]
         | Plus \<Rightarrow> rev [1 ..< Suc n])"

text \<open>
  \<open>matchSeq as s\<close> matches the atoms at the head of \<open>s\<close>: the captured groups in
  order and the number of bytes consumed.
\<close>

primrec matchSeq :: "atom list \<Rightarrow> string \<Rightarrow> (string list \<times> nat) option" where
  "matchSeq [] = (\<lambda>s. Some ([], 0))"
| "matchSeq (a # as) = (\<lambda>s.
     firstSome (\<lambda>k.
        case matchSeq as (drop k s) of
          None \<Rightarrow> None
        | Some (caps, n) \<Rightarrow> Some ((if grp a then [take k s] else []) @ caps, k + n))
      (candidates a s))"

text \<open>
  \<^verbatim>\<open>FindStringSubmatch\<close>: the leftmost match; the result holds the whole match
  followed by the groups, and is \<^verbatim>\<open>nil\<close> (here \<open>None\<close>) when nothing matches.
\<close>

fun FindStringSubmatch :: "atom list \<Rightarrow> string \<Rightarrow> string list option" where
  "FindStringSubmatch r [] =
     (case matchSeq r [] of None \<Rightarrow> None | Some (caps, n) \<Rightarrow> Some ([] # caps))"
| "FindStringSubmatch r (c # cs) =
     (case matchSeq r (c # cs) of
        Some (caps, n) \<Rightarrow> Some (take n (c # cs) # caps)
      | None \<Rightarrow> FindStringSubmatch r cs)"

subsection \<open>\<^verbatim>\<open>strings.Split\<close>, \<^verbatim>\<open>strings.Fields\<close>, \<^verbatim>\<open>strings.Join\<close>\<close>

text \<open>
  \<^verbatim>\<open>strings.Split(s, ",")\<close>: the substrings between the separators; one more
  element than there are separators, so the empty string gives one empty element.
\<close>

fun splitFrom :: "string \<Rightarrow> char \<Rightarrow> string \<Rightarrow> string list" where
  "splitFrom cur sep [] = [cur]"
| "splitFrom cur sep (c # cs) =
     (if c = sep then cur # splitFrom [] sep cs else splitFrom (cur @ [c]) sep cs)"

definition Split :: "string \<Rightarrow> char \<Rightarrow> string list" where
  "Split s sep = splitFrom [] sep s"

text \<open>
  \<^verbatim>\<open>strings.Fields\<close> splits around runs of white space as \<^verbatim>\<open>unicode.IsSpace\<close>
  defines it: the six ASCII characters tab, line feed, vertical tab, form feed,
  carriage return and space, and the code points U+0085, U+00A0, U+1680,
  U+2000 to U+200A, U+2028, U+2029, U+202F, U+205F and U+3000, here as their UTF-8
  encodings.  Each of these encodings starts with an ASCII byte or a UTF-8 lead byte,
  which the decoder always visits as the start of a character (a malformed byte
  counts as one character of width one), so looking for them byte by byte finds the
  same white space as decoding does.
\<close>

definition unicodeSpaces :: "string list" where
  "unicodeSpaces =
     [[CHR 0x09], [CHR 0x0A], [CHR 0x0B], [CHR 0x0C], [CHR 0x0D], [CHR 0x20],
      [CHR 0xC2, CHR 0x85], [CHR 0xC2, CHR 0xA0],
      [CHR 0xE1, CHR 0x9A, CHR 0x80],
      [CHR 0xE2, CHR 0x80, CHR 0x80], [CHR 0xE2, CHR 0x80, CHR 0x81],
      [CHR 0xE2, CHR 0x80, CHR 0x82], [CHR 0xE2, CHR 0x80, CHR 0x83],
      [CHR 0xE2, CHR 0x80, CHR 0x84], [CHR 0xE2, CHR 0x80, CHR 0x85],
      [CHR 0xE2, CHR 0x80, CHR 0x86], [CHR 0xE2, CHR 0x80, CHR 0x87],
      [CHR 0xE2, CHR 0x80, CHR 0x88], [CHR 0xE2, CHR 0x80, CHR 0x89],
      [CHR 0xE2, CHR 0x80, CHR 0x8A],
      [CHR 0xE2, CHR 0x80, CHR 0xA8], [CHR 0xE2, CHR 0x80, CHR 0xA9],
      [CHR 0xE2, CHR 0x80, CHR 0xAF],
      [CHR 0xE2, CHR 0x81, CHR 0x9F],
      [CHR 0xE3, CHR 0x80, CHR 0x80]]"

text \<open>The width of the white-space character \<open>s\<close> starts with, \<open>0\<close> if there is none.\<close>

definition spaceLen :: "string \<Rightarrow> nat" where
  "spaceLen s = (case find (\<lambda>w. prefix w s) unicodeSpaces of None \<Rightarrow> 0 | Some w \<Rightarrow> length w)"

text \<open>The bytes of \<open>s\<close> up to the next white-space character.\<close>

fun token :: "string \<Rightarrow> string" where
  "token [] = []"
| "token (c # cs) = (if 0 < spaceLen (c # cs) then [] else c # token cs)"

function Fields :: "string \<Rightarrow> string list" where
  "Fields s =
     (if s = [] then []
      else if 0 < spaceLen s then Fields (drop (spaceLen s) s)
      else token s # Fields (drop (length (token s)) s))"
  by pat_completeness auto
termination
proof (relation "measure length")
  fix s :: string
  assume "s \<noteq> []" and "\<not> 0 < spaceLen s"
  then have "token s \<noteq> []" by (cases s) auto
  with \<open>s \<noteq> []\<close> show "(drop (length (token s)) s, s) \<in> measure length" by simp
qed auto

declare Fields.simps [simp del]

fun Join :: "string list \<Rightarrow> string \<Rightarrow> string" where
  "Join [] sep = []"
| "Join [x] sep = x"
| "Join (x # y # ys) sep = x @ sep @ Join (y # ys) sep"

section \<open>\<open>formatSignature\<close>\<close>

text \<open>The pattern \<^verbatim>\<open>(\w+)\s*\(([^)]*)\)\<close>.\<close>

definition sigRegexp :: "atom list" where
  "sigRegexp =
     [\<lparr>cls = isWordChar, rep = Plus, grp = True\<rparr>,
      \<lparr>cls = isReSpace, rep = Star, grp = False\<rparr>,
      \<lparr>cls = (\<lambda>c. c = CHR ''(''), rep = Once, grp = False\<rparr>,
      \<lparr>cls = notRParen, rep = Star, grp = True\<rparr>,
      \<lparr>cls = (\<lambda>c. c = CHR '')''), rep = Once, grp = False\<rparr>]"

text \<open>The loop over the comma-separated parameters, appending to \<open>cleanParams\<close>.\<close>

fun cleanLoop :: "string list \<Rightarrow> string list \<Rightarrow> string list" where
  "cleanLoop cleanParams [] = cleanParams"
| "cleanLoop cleanParams (param # rest) =
     (let parts = Fields param
      in if 0 < length parts then cleanLoop (cleanParams @ [hd parts]) rest
         else cleanLoop cleanParams rest)"

definition formatSignature :: "string \<Rightarrow> string" where
  "formatSignature signature =
     (case FindStringSubmatch sigRegexp signature of
        Some [whole, funcName, params] \<Rightarrow>
          funcName @ ''('' @ Join (cleanLoop [] (Split params CHR '','')) '','' @ '')''
      | _ \<Rightarrow> [])"

section \<open>\<open>FormatAndHash\<close>\<close>

type_synonym Hash = "256 word"

datatype error = Panic string

text \<open>
  \<^verbatim>\<open>common.BytesToHash\<close> keeps the last 32 bytes and pads shorter input with zero
  bytes on the left: the hash is the big-endian number the bytes spell, modulo \<open>2^256\<close>.
\<close>

definition BytesToHash :: "string \<Rightarrow> Hash" where
  "BytesToHash b = word_of_nat (foldl (\<lambda>acc c. 256 * acc + of_char c) 0 b)"

text \<open>
  \<^verbatim>\<open>crypto.Keccak256\<close> belongs to the go-ethereum library; it is the parameter
  \<open>Keccak256\<close>, from the bytes hashed to the 32 bytes of the digest.
\<close>

definition FormatAndHash :: "(string \<Rightarrow> string) \<Rightarrow> string \<Rightarrow> error + Hash" where
  "FormatAndHash Keccak256 signature =
     (let formattedSignature = formatSignature signature
      in if formattedSignature = [] then Inl (Panic ''Invalid signature'')
         else Inr (BytesToHash (Keccak256 formattedSignature)))"

section \<open>The global events monitor\<close>

type_synonym Address = "160 word"

text \<open>
  The rule types are declared outside the files at hand; the fields are the ones
  \<open>checkEvents\<close> and \<open>isAddressIntoConfig\<close> read.
\<close>

record Event =
  Signature :: string

record Configuration =
  Name :: string
  Priority :: string
  Addresses :: "Address list"
  Events :: "Event list"

record Log =
  Address :: Address
  Topics :: "Hash list"
  TxHash :: Hash

record Header =
  Number :: int

record FilterQuery =
  FromBlock :: int
  ToBlock :: int

text \<open>What the node answers during one tick: an error (\<open>Inl\<close>) or the value.\<close>

record L1Client =
  HeaderByNumber :: "string + Header"
  FilterLogs :: "FilterQuery \<Rightarrow> string + Log list"

text \<open>
  The label values of the gauge \<open>eventEmitted\<close> are nickname, rule name, priority,
  signature and address; the address stands for its rendering
  \<^verbatim>\<open>vLog.Address.String()\<close>, which is one-to-one.
\<close>

type_synonym EventLabels = "string \<times> string \<times> string \<times> string \<times> Address"

text \<open>
  The monitor.  \<open>SearchIfATopicIsInsideAnAlert\<close> is the method of \<open>globalconfig\<close>
  that \<open>checkEvents\<close> calls: it is declared outside the files at hand and returns one
  \<open>Configuration\<close>.  \<open>stdout\<close> holds the ``Event Detected'' records printed and
  \<open>log\<close> the lines given to the logger.
\<close>

record Monitor =
  log :: "string list"
  l1Client :: L1Client
  SearchIfATopicIsInsideAnAlert :: "Hash \<Rightarrow> Configuration"
  nickname :: string
  eventEmitted :: "EventLabels \<rightharpoonup> real"
  unexpectedRpcErrors :: "string \<times> string \<Rightarrow> nat"
  stdout :: "(Hash \<times> Address \<times> Hash list \<times> Configuration) list"

text \<open>\<^verbatim>\<open>WithLabelValues(section, name).Inc()\<close> on a counter vector.\<close>

definition Inc :: "(string \<times> string \<Rightarrow> nat) \<Rightarrow> string \<times> string \<Rightarrow> (string \<times> string \<Rightarrow> nat)" where
  "Inc counter labels = counter(labels := counter labels + 1)"

fun addressLoop :: "Address \<Rightarrow> Address list \<Rightarrow> bool" where
  "addressLoop address [] = False"
| "addressLoop address (addr # rest) = (if addr = address then True else addressLoop address rest)"

definition isAddressIntoConfig :: "Address \<Rightarrow> Configuration \<Rightarrow> bool" where
  "isAddressIntoConfig address config =
     (if length (Addresses config) = 0 then True
      else addressLoop address (Addresses config))"

text \<open>The body of the loop over the logs of the block.\<close>

definition checkLog :: "Monitor \<Rightarrow> Log \<Rightarrow> Monitor" where
  "checkLog m vLog =
     (if 0 < length (Topics vLog) then
        if 0 < length (Events (SearchIfATopicIsInsideAnAlert m (Topics vLog ! 0))) then
          let config = SearchIfATopicIsInsideAnAlert m (Topics vLog ! 0)
          in if isAddressIntoConfig (Address vLog) config then
               m\<lparr>stdout := stdout m @ [(TxHash vLog, Address vLog, Topics vLog, config)],
                 eventEmitted := (eventEmitted m)
                   ((nickname m, Name config, Priority config,
                     Signature (Events config ! 0), Address vLog) \<mapsto> 1)\<rparr>
             else m
        else m
      else m)"

fun checkLogs :: "Monitor \<Rightarrow> Log list \<Rightarrow> Monitor" where
  "checkLogs m [] = m"
| "checkLogs m (vLog # logs) = checkLogs (checkLog m vLog) logs"

definition checkEvents :: "Monitor \<Rightarrow> Monitor" where
  "checkEvents m =
     (case HeaderByNumber (l1Client m) of
        Inl err \<Rightarrow>
          m\<lparr>unexpectedRpcErrors := Inc (unexpectedRpcErrors m) (''L1'', ''HeaderByNumber''),
            log := log m @ [''Failed to retrieve latest block header'']\<rparr>
      | Inr header \<Rightarrow>
          let latestBlockNumber = Number header;
              query = \<lparr>FromBlock = latestBlockNumber, ToBlock = latestBlockNumber\<rparr>
          in (case FilterLogs (l1Client m) query of
                Inl err \<Rightarrow>
                  m\<lparr>unexpectedRpcErrors := Inc (unexpectedRpcErrors m) (''L1'', ''FilterLogs''),
                    log := log m @ [''Failed to retrieve logs:'']\<rparr>
              | Inr logs \<Rightarrow>
                  (let m' = checkLogs m logs in m'\<lparr>log := log m' @ [''Checking events..'']\<rparr>)))"

definition Run :: "Monitor \<Rightarrow> Monitor" where
  "Run m = checkEvents m"

section \<open>The liveness expiration monitor\<close>

text \<open>
  A Go call returning \<^verbatim>\<open>(value, err)\<close> is a pair; a \<^verbatim>\<open>*big.Int\<close> is an
  \<^typ>\<open>int option\<close>, \<open>None\<close> for the nil pointer.  The contract bindings are
  generated code outside the files at hand: what a call returns is an input of the tick.
\<close>

record LivenessMonitor =
  BlockNumber :: "64 word \<times> string option"
  GetOwners :: "Address list \<times> string option"
  LastLive :: "Address \<Rightarrow> int option \<times> string option"
  LivenessInterval :: "int option \<times> string option"
  log_le :: "string list"
  highestBlockNumber :: "string \<rightharpoonup> real"
  unexpectedRpcErrors_le :: "string \<times> string \<Rightarrow> nat"
  intervalLiveness :: "string \<rightharpoonup> real"
  lastLiveOfAOwner :: "Address \<rightharpoonup> real"
  blockTimestamp :: "string \<rightharpoonup> real"

text \<open>
  \<^verbatim>\<open>(*big.Int).Uint64\<close> reads the low 64 bits of the absolute value through the
  pointer: on the nil pointer the Go runtime panics.
\<close>

definition Uint64 :: "int option \<Rightarrow> error + 64 word" where
  "Uint64 x =
     (case x of
        None \<Rightarrow> Inl (Panic ''invalid memory address or nil pointer dereference'')
      | Some v \<Rightarrow> Inr (word_of_int \<bar>v\<bar>))"

text \<open>One step of the loop over the owners, and the loop.\<close>

definition ownerStep :: "LivenessMonitor \<Rightarrow> Address \<Rightarrow> error + LivenessMonitor" where
  "ownerStep m owner =
     (let (lastLive, err) = LastLive m owner;
          m1 = (case err of
                  Some e \<Rightarrow>
                    m\<lparr>log_le := log_le m @ [''failed to query the method `LastLive`''],
                      unexpectedRpcErrors_le := Inc (unexpectedRpcErrors_le m) (''l1'', ''LastLive'')\<rparr>
                | None \<Rightarrow> m)
      in case Uint64 lastLive of
           Inl p \<Rightarrow> Inl p
         | Inr v \<Rightarrow>
             Inr (m1\<lparr>lastLiveOfAOwner := (lastLiveOfAOwner m1)(owner \<mapsto> real (unat v)),
                     log_le := log_le m1 @ [''lastLive'']\<rparr>))"

fun ownersLoop :: "LivenessMonitor \<Rightarrow> Address list \<Rightarrow> error + LivenessMonitor" where
  "ownersLoop m [] = Inr m"
| "ownersLoop m (owner # rest) =
     (case ownerStep m owner of Inl p \<Rightarrow> Inl p | Inr m' \<Rightarrow> ownersLoop m' rest)"

definition Run_le :: "LivenessMonitor \<Rightarrow> error + LivenessMonitor" where
  "Run_le m =
     (let (latestL1Height, err) = BlockNumber m;
          m1 = (case err of
                  Some e \<Rightarrow>
                    m\<lparr>log_le := log_le m @ [''failed to query latest block number''],
                      unexpectedRpcErrors_le := Inc (unexpectedRpcErrors_le m) (''l1'', ''blockNumber'')\<rparr>
                | None \<Rightarrow> m);
          m2 = m1\<lparr>log_le := log_le m1 @ [''BlockNumber'']\<rparr>;
          (listOwners, err) = GetOwners m2;
          m3 = (case err of
                  Some e \<Rightarrow>
                    m2\<lparr>log_le := log_le m2 @ [''failed to query the method `GetOwners`''],
                       unexpectedRpcErrors_le := Inc (unexpectedRpcErrors_le m2) (''l1'', ''GetOwners'')\<rparr>
                | None \<Rightarrow> m2)
      in case ownersLoop m3 listOwners of
           Inl p \<Rightarrow> Inl p
         | Inr m4 \<Rightarrow>
             (let (interval, err) = LivenessInterval m4;
                  m5 = (case err of
                          Some e \<Rightarrow>
                            m4\<lparr>log_le := log_le m4 @ [''failed to query the method `LivenessInterval`''],
                               unexpectedRpcErrors_le :=
                                 Inc (unexpectedRpcErrors_le m4) (''l1'', ''LivenessInterval'')\<rparr>
                        | None \<Rightarrow> m4)
              in case Uint64 interval of
                   Inl p \<Rightarrow> Inl p
                 | Inr v \<Rightarrow>
                     Inr (m5\<lparr>intervalLiveness := (intervalLiveness m5)(''interval'' \<mapsto> real (unat v)),
                             log_le := log_le m5 @ [''interval''],
                             highestBlockNumber :=
                               (highestBlockNumber m5)(''blockNumber'' \<mapsto> real (unat latestL1Height))\<rparr>)))"

section \<open>The tip monitor\<close>

record RPCBlock =
  Time :: "64 word"
  Transactions :: "string list"

text \<open>
  \<open>CallContext\<close> is the answer to \<^verbatim>\<open>eth_getBlockByNumber\<close> during the tick and
  \<open>Now\<close> the clock, \<^verbatim>\<open>time.Now().UTC().Unix()\<close>, a signed 64-bit number.
\<close>

record TipMonitor =
  CallContext :: "string + RPCBlock"
  Now :: "64 word"
  log_tip :: "string list"
  laggingDistance :: "string \<rightharpoonup> real"
  blockNumTransactions :: "string \<rightharpoonup> real"
  unexpectedRpcErrors_tip :: "string \<times> string \<Rightarrow> nat"

definition Run_tip :: "TipMonitor \<Rightarrow> TipMonitor" where
  "Run_tip m =
     (let m0 = m\<lparr>log_tip := log_tip m @ [''querying tip...'']\<rparr>
      in case CallContext m0 of
           Inl err \<Rightarrow>
             m0\<lparr>log_tip := log_tip m0 @ [''failed eth_getBlockByNumber request''],
                unexpectedRpcErrors_tip :=
                  Inc (unexpectedRpcErrors_tip m0) (''laggingDistance'', ''eth_getBlockByNumber'')\<rparr>
         | Inr result \<Rightarrow>
             (let lag = Now m0 - Time result;
                  m1 = m0\<lparr>laggingDistance := (laggingDistance m0)(''latest'' \<mapsto> real_of_int (sint lag)),
                          log_tip := log_tip m0 @ [''set lagging distance'']\<rparr>;
                  nTxs = length (Transactions result)
              in m1\<lparr>blockNumTransactions := (blockNumTransactions m1)(''latest'' \<mapsto> real nTxs),
                    log_tip := log_tip m1 @ [''set total transactions'']\<rparr>))"

text \<open>
  Two monitors match alike when they agree on the lookup, the nickname, the gauge and
  the records printed.
\<close>

definition sameMatching :: "Monitor \<Rightarrow> Monitor \<Rightarrow> bool" where
  "sameMatching m m' \<longleftrightarrow>
     eventEmitted m = eventEmitted m' \<and> stdout m = stdout m' \<and> nickname m = nickname m' \<and>
     SearchIfATopicIsInsideAnAlert m = SearchIfATopicIsInsideAnAlert m'"

section \<open>Example inputs\<close>

text \<open>
  The theorems about \<open>FormatAndHash\<close> hold for every digest function.  Where an example
  needs a particular one, \<open>exampleDigest\<close> stands in for it: it returns the bytes it is
  given.
\<close>

definition exampleDigest :: "string \<Rightarrow> string" where
  "exampleDigest b = b"

text \<open>Two distinct rules for the same event signature, open to every address.\<close>

definition ruleR1 :: Configuration where
  "ruleR1 = \<lparr>Name = ''R1'', Priority = ''P0'', Addresses = [],
             Events = [\<lparr>Signature = ''Transfer(address,address,uint256)''\<rparr>]\<rparr>"

definition ruleR2 :: Configuration where
  "ruleR2 = \<lparr>Name = ''R2'', Priority = ''P1'', Addresses = [],
             Events = [\<lparr>Signature = ''Transfer(address,address,uint256)''\<rparr>]\<rparr>"

text \<open>The zero value of \<open>Configuration\<close>, which has no event.\<close>

definition noRule :: Configuration where
  "noRule = \<lparr>Name = [], Priority = [], Addresses = [], Events = []\<rparr>"

definition transferTopic :: Hash where
  "transferTopic = 0xddf252ad1be2c89b69c2b068fc378daa952ba7f163c4a11628f55a4df523b3ef"

definition transferLog :: Log where
  "transferLog = \<lparr>Address = 0xABCD, Topics = [transferTopic], TxHash = 1\<rparr>"

definition anonymousLog :: Log where
  "anonymousLog = \<lparr>Address = 0xABCD, Topics = [], TxHash = 2\<rparr>"

text \<open>
  A monitor before its first tick, for a given lookup; the node answers with the block
  100 and the given logs.
\<close>

definition freshMonitor :: "(Hash \<Rightarrow> Configuration) \<Rightarrow> Log list \<Rightarrow> Monitor" where
  "freshMonitor search logs =
     \<lparr>log = [],
      l1Client = \<lparr>HeaderByNumber = Inr \<lparr>Number = 100\<rparr>, FilterLogs = (\<lambda>query. Inr logs)\<rparr>,
      SearchIfATopicIsInsideAnAlert = search,
      nickname = ''nick'',
      eventEmitted = Map.empty,
      unexpectedRpcErrors = (\<lambda>labels. 0),
      stdout = []\<rparr>"

text \<open>
  A liveness monitor before its first tick with one owner; the answers of the four calls
  are given.
\<close>

definition freshLiveness ::
  "64 word \<times> string option \<Rightarrow> (Address \<Rightarrow> int option \<times> string option) \<Rightarrow>
   int option \<times> string option \<Rightarrow> LivenessMonitor" where
  "freshLiveness blockNumber lastLive interval =
     \<lparr>BlockNumber = blockNumber,
      GetOwners = ([0xA11CE], None),
      LastLive = lastLive,
      LivenessInterval = interval,
      log_le = [],
      highestBlockNumber = Map.empty,
      unexpectedRpcErrors_le = (\<lambda>labels. 0),
      intervalLiveness = Map.empty,
      lastLiveOfAOwner = Map.empty,
      blockTimestamp = Map.empty\<rparr>"

section \<open>The canonical form in the words of the specification\<close>

text \<open>
  The specification describes the canonical signature directly: split the parameter
  list on commas; for each field that is not only white space take its first
  white-space-separated token; join the tokens with commas behind the name and an
  opening parenthesis, and close the parenthesis.  \<open>skipSpaces\<close> drops the white space
  a field starts with; \<open>spaceFree\<close> says that no white-space character occurs.
\<close>

function skipSpaces :: "string \<Rightarrow> string" where
  "skipSpaces s = (if 0 < spaceLen s then skipSpaces (drop (spaceLen s) s) else s)"
  by pat_completeness auto
termination
proof (relation "measure length")
  fix s :: string
  assume pos: "0 < spaceLen s"
  have "spaceLen [] = 0" by (simp add: spaceLen_def unicodeSpaces_def)
  with pos have "s \<noteq> []" by auto
  with pos show "(drop (spaceLen s) s, s) \<in> measure length" by simp
qed auto

declare skipSpaces.simps [simp del]

fun spaceFree :: "string \<Rightarrow> bool" where
  "spaceFree [] = True"
| "spaceFree (c # cs) = (spaceLen (c # cs) = 0 \<and> spaceFree cs)"

definition specTypes :: "string \<Rightarrow> string list" where
  "specTypes params =
     map (\<lambda>field. token (skipSpaces field))
       (filter (\<lambda>field. skipSpaces field \<noteq> []) (Split params CHR '',''))"

definition specCanonical :: "string \<Rightarrow> string \<Rightarrow> string" where
  "specCanonical name params = name @ ''('' @ Join (specTypes params) '','' @ '')''"

text \<open>The tails of the pattern, for the proofs about the matcher.\<close>

definition rparenTail :: "atom list" where
  "rparenTail = [\<lparr>cls = (\<lambda>c. c = CHR '')''), rep = Once, grp = False\<rparr>]"

definition paramsTail :: "atom list" where
  "paramsTail = \<lparr>cls = notRParen, rep = Star, grp = True\<rparr> # rparenTail"

definition lparenTail :: "atom list" where
  "lparenTail = \<lparr>cls = (\<lambda>c. c = CHR ''(''), rep = Once, grp = False\<rparr> # paramsTail"

definition spaceTail :: "atom list" where
  "spaceTail = \<lparr>cls = isReSpace, rep = Star, grp = False\<rparr> # lparenTail"

section \<open>The pattern match is deterministic\<close>

lemma firstSome_rev_upt:
  assumes "lo \<le> n" and "\<And>k. lo \<le> k \<Longrightarrow> k < n \<Longrightarrow> f k = None"
  shows "firstSome f (rev [lo ..< Suc n]) = f n"
  using assms
proof (induction n)
  case 0
  then show ?case by (simp split: option.splits)
next
  case (Suc n)
  show ?case
  proof (cases "lo = Suc n")
    case True
    then show ?thesis by (simp split: option.splits)
  next
    case False
    with Suc.prems have le: "lo \<le> n" by simp
    have none: "f k = None" if "lo \<le> k" "k < n" for k using Suc.prems(2) that by simp
    have "firstSome f (rev [lo ..< Suc n]) = f n" using Suc.IH [OF le none] .
    moreover have "f n = None" using Suc.prems(2) le by simp
    ultimately show ?thesis using le by (cases "f (Suc n)") simp_all
  qed
qed

lemma matchSeq_Once:
  "rep a = Once \<Longrightarrow> matchSeq (a # as) s =
     (case s of [] \<Rightarrow> None
      | c # t \<Rightarrow> if cls a c
          then (case matchSeq as t of None \<Rightarrow> None
                | Some (caps, n) \<Rightarrow> Some ((if grp a then [[c]] else []) @ caps, Suc n))
          else None)"
  by (cases s) (simp_all add: candidates_def split: option.splits)

lemma drop_takeWhile_head:
  assumes "k < length (takeWhile P s)"
  shows "\<exists>c t. drop k s = c # t \<and> P c"
proof -
  from assms have k: "k < length s" using length_takeWhile_le [of P s] by simp
  have "P (s ! k)" using assms by (metis nth_mem set_takeWhileD takeWhile_nth)
  moreover have "drop k s = s ! k # drop (Suc k) s" using k by (simp add: Cons_nth_drop_Suc)
  ultimately show ?thesis by blast
qed

lemma matchSeq_Star:
  assumes "rep a = Star" and rej: "\<And>c t. cls a c \<Longrightarrow> matchSeq as (c # t) = None"
  shows "matchSeq (a # as) s =
     (case matchSeq as (dropWhile (cls a) s) of None \<Rightarrow> None
      | Some (caps, n) \<Rightarrow>
          Some ((if grp a then [takeWhile (cls a) s] else []) @ caps, length (takeWhile (cls a) s) + n))"
proof -
  let ?n = "length (takeWhile (cls a) s)"
  let ?f = "\<lambda>k. case matchSeq as (drop k s) of None \<Rightarrow> None
        | Some (caps, n) \<Rightarrow> Some ((if grp a then [take k s] else []) @ caps, k + n)"
  have none: "?f k = None" if "k < ?n" for k
  proof -
    from drop_takeWhile_head [OF that] obtain c t where "drop k s = c # t" "cls a c" by blast
    then show ?thesis using rej by simp
  qed
  have c: "candidates a s = rev [0 ..< Suc ?n]"
    using assms(1) by (simp add: candidates_def Let_def)
  have m: "matchSeq (a # as) s = firstSome ?f (candidates a s)" by simp
  have "firstSome ?f (rev [0 ..< Suc ?n]) = ?f ?n"
    by (rule firstSome_rev_upt) (simp_all add: none)
  then have "matchSeq (a # as) s = ?f ?n" unfolding m c .
  then show ?thesis
    by (simp only: dropWhile_eq_drop [symmetric] takeWhile_eq_take [symmetric])
qed

lemma matchSeq_Plus:
  assumes "rep a = Plus" and rej: "\<And>c t. cls a c \<Longrightarrow> matchSeq as (c # t) = None"
  shows "matchSeq (a # as) s =
     (if takeWhile (cls a) s = [] then None
      else case matchSeq as (dropWhile (cls a) s) of None \<Rightarrow> None
      | Some (caps, n) \<Rightarrow>
          Some ((if grp a then [takeWhile (cls a) s] else []) @ caps, length (takeWhile (cls a) s) + n))"
proof (cases "takeWhile (cls a) s = []")
  case True
  then have "candidates a s = []" using assms(1) by (simp add: candidates_def Let_def)
  moreover have "matchSeq (a # as) s = firstSome (\<lambda>k. case matchSeq as (drop k s) of None \<Rightarrow> None
        | Some (caps, n) \<Rightarrow> Some ((if grp a then [take k s] else []) @ caps, k + n)) (candidates a s)" by simp
  ultimately show ?thesis using True by simp
next
  case False
  let ?n = "length (takeWhile (cls a) s)"
  let ?f = "\<lambda>k. case matchSeq as (drop k s) of None \<Rightarrow> None
        | Some (caps, n) \<Rightarrow> Some ((if grp a then [take k s] else []) @ caps, k + n)"
  have none: "?f k = None" if "k < ?n" for k
  proof -
    from drop_takeWhile_head [OF that] obtain c t where "drop k s = c # t" "cls a c" by blast
    then show ?thesis using rej by simp
  qed
  from False have pos: "1 \<le> ?n" by (simp add: Suc_le_eq)
  have c: "candidates a s = rev [1 ..< Suc ?n]"
    using assms(1) by (simp add: candidates_def Let_def)
  have m: "matchSeq (a # as) s = firstSome ?f (candidates a s)" by simp
  have "firstSome ?f (rev [1 ..< Suc ?n]) = ?f ?n"
    using pos by (rule firstSome_rev_upt) (simp_all add: none)
  then have "matchSeq (a # as) s = ?f ?n" unfolding m c .
  then show ?thesis
    using False by (simp only: dropWhile_eq_drop [symmetric] takeWhile_eq_take [symmetric] if_False)
qed


lemma word_not_lparen: "isWordChar c \<Longrightarrow> c \<noteq> CHR ''(''"
  by (auto simp: isWordChar_def Let_def)

lemma word_not_space: "isWordChar c \<Longrightarrow> \<not> isReSpace c"
  by (auto simp: isWordChar_def isReSpace_def Let_def)

lemma space_not_lparen: "isReSpace c \<Longrightarrow> c \<noteq> CHR ''(''"
  by (auto simp: isReSpace_def Let_def)

lemma matchSeq_Once':
  "matchSeq (\<lparr>cls = P, rep = Once, grp = False\<rparr> # as) s =
     (case s of [] \<Rightarrow> None
      | c # t \<Rightarrow> if P c then map_option (\<lambda>(caps, n). (caps, Suc n)) (matchSeq as t) else None)"
  by (subst matchSeq_Once) (simp_all split: list.splits option.splits)

lemma matchSeq_Star':
  assumes "\<And>c t. P c \<Longrightarrow> matchSeq as (c # t) = None"
  shows "matchSeq (\<lparr>cls = P, rep = Star, grp = g\<rparr> # as) s =
     map_option (\<lambda>(caps, n). (if g then takeWhile P s # caps else caps, length (takeWhile P s) + n))
       (matchSeq as (dropWhile P s))"
  using assms by (subst matchSeq_Star) (simp_all split: option.splits)

lemma matchSeq_Plus':
  assumes "\<And>c t. P c \<Longrightarrow> matchSeq as (c # t) = None"
  shows "matchSeq (\<lparr>cls = P, rep = Plus, grp = g\<rparr> # as) s =
     (if takeWhile P s = [] then None
      else map_option (\<lambda>(caps, n). (if g then takeWhile P s # caps else caps, length (takeWhile P s) + n))
       (matchSeq as (dropWhile P s)))"
  using assms by (subst matchSeq_Plus) (simp_all split: option.splits)

lemma sigRegexp_eq: "sigRegexp = \<lparr>cls = isWordChar, rep = Plus, grp = True\<rparr> # spaceTail"
  by (simp add: sigRegexp_def spaceTail_def lparenTail_def paramsTail_def rparenTail_def)

lemma match_rparenTail:
  "matchSeq rparenTail s = (case s of [] \<Rightarrow> None | c # t \<Rightarrow> if c = CHR '')'' then Some ([], 1) else None)"
  unfolding rparenTail_def matchSeq_Once' by (simp split: list.splits)

lemma match_paramsTail:
  "matchSeq paramsTail s =
     map_option (\<lambda>(caps, n). (takeWhile notRParen s # caps, length (takeWhile notRParen s) + n))
       (matchSeq rparenTail (dropWhile notRParen s))"
  unfolding paramsTail_def by (subst matchSeq_Star') (simp_all add: match_rparenTail notRParen_def)

lemma match_lparenTail:
  "matchSeq lparenTail s =
     (case s of [] \<Rightarrow> None
      | c # t \<Rightarrow> if c = CHR ''('' then map_option (\<lambda>(caps, n). (caps, Suc n)) (matchSeq paramsTail t) else None)"
  unfolding lparenTail_def by (rule matchSeq_Once')

lemma match_spaceTail:
  "matchSeq spaceTail s =
     map_option (\<lambda>(caps, n). (caps, length (takeWhile isReSpace s) + n))
       (matchSeq lparenTail (dropWhile isReSpace s))"
  unfolding spaceTail_def by (subst matchSeq_Star') (simp_all add: match_lparenTail space_not_lparen)

lemma spaceTail_rejects_word: "isWordChar c \<Longrightarrow> matchSeq spaceTail (c # t) = None"
  by (simp add: match_spaceTail match_lparenTail word_not_space word_not_lparen)

lemma match_sigRegexp:
  "matchSeq sigRegexp s =
     (if takeWhile isWordChar s = [] then None
      else map_option (\<lambda>(caps, n). (takeWhile isWordChar s # caps, length (takeWhile isWordChar s) + n))
             (matchSeq spaceTail (dropWhile isWordChar s)))"
  unfolding sigRegexp_eq by (subst matchSeq_Plus') (simp_all add: spaceTail_rejects_word)

lemma match_shape:
  assumes "name \<noteq> []" and "\<forall>c\<in>set name. isWordChar c" and "\<forall>c\<in>set ws. isReSpace c"
    and "CHR '')'' \<notin> set params"
  shows "matchSeq sigRegexp (name @ ws @ ''('' @ params @ '')'' @ post) =
           Some ([name, params], length name + length ws + length params + 2)"
proof -
  let ?r3 = "params @ CHR '')'' # post"
  let ?r1 = "ws @ CHR ''('' # ?r3"
  have nw: "\<not> isWordChar (hd ?r1)"
    using assms(3) by (cases ws) (auto dest: word_not_space word_not_lparen)
  have tw: "takeWhile isWordChar (name @ ?r1) = name"
    using assms(2) nw by (cases ?r1) simp_all
  have dw: "dropWhile isWordChar (name @ ?r1) = ?r1"
    using assms(2) nw by (cases ?r1) simp_all
  have ts: "takeWhile isReSpace ?r1 = ws"
    using assms(3) by (simp add: isReSpace_def)
  have ds: "dropWhile isReSpace ?r1 = CHR ''('' # ?r3"
    using assms(3) by (simp add: isReSpace_def)
  have np: "\<forall>c\<in>set params. notRParen c"
    using assms(4) by (auto simp: notRParen_def)
  have tp: "takeWhile notRParen ?r3 = params"
    using np by (simp add: notRParen_def)
  have dp: "dropWhile notRParen ?r3 = CHR '')'' # post"
    using np by (simp add: notRParen_def)
  have "matchSeq paramsTail ?r3 = Some ([params], length params + 1)"
    by (simp add: match_paramsTail match_rparenTail tp dp)
  then have "matchSeq lparenTail (CHR ''('' # ?r3) = Some ([params], length params + 2)"
    by (simp add: match_lparenTail)
  then have "matchSeq spaceTail ?r1 = Some ([params], length ws + (length params + 2))"
    by (simp add: match_spaceTail ds ts)
  then have "matchSeq sigRegexp (name @ ?r1) =
      Some ([name, params], length name + (length ws + (length params + 2)))"
    using assms(1) by (simp add: match_sigRegexp tw dw)
  then show ?thesis by simp
qed

section \<open>White space, tokens and fields\<close>

subsection \<open>White space\<close>

lemma unicodeSpaces_nonempty: "w \<in> set unicodeSpaces \<Longrightarrow> w \<noteq> []"
  by (auto simp: unicodeSpaces_def)

lemma spaceLen_pos_iff: "0 < spaceLen s \<longleftrightarrow> (\<exists>w\<in>set unicodeSpaces. prefix w s)"
proof (cases "find (\<lambda>w. prefix w s) unicodeSpaces")
  case None
  then have "spaceLen s = 0" by (simp add: spaceLen_def)
  moreover have "\<not> (\<exists>w\<in>set unicodeSpaces. prefix w s)"
    using None by (auto simp: find_None_iff)
  ultimately show ?thesis by simp
next
  case (Some w)
  then have "w \<in> set unicodeSpaces" "prefix w s"
    by (auto simp: find_Some_iff)
  then show ?thesis using Some unicodeSpaces_nonempty [of w] by (auto simp: spaceLen_def)
qed

lemma spaceLen_Nil [simp]: "spaceLen [] = 0"
  using spaceLen_pos_iff [of "[]"] unicodeSpaces_nonempty by auto

lemma spaceLen_le: "spaceLen s \<le> length s"
proof (cases "find (\<lambda>w. prefix w s) unicodeSpaces")
  case None
  then show ?thesis by (simp add: spaceLen_def)
next
  case (Some w)
  then have "prefix w s" by (auto simp: find_Some_iff)
  then show ?thesis using Some by (simp add: spaceLen_def prefix_length_le)
qed

lemma spaceLen_append_zero: "spaceLen (a @ b) = 0 \<Longrightarrow> spaceLen a = 0"
proof (rule ccontr)
  assume z: "spaceLen (a @ b) = 0" and "spaceLen a \<noteq> 0"
  then obtain w where "w \<in> set unicodeSpaces" "prefix w a"
    using spaceLen_pos_iff [of a] by auto
  then have "0 < spaceLen (a @ b)"
    using spaceLen_pos_iff [of "a @ b"] by (auto intro: prefix_prefix)
  with z show False by simp
qed

subsection \<open>Tokens\<close>

lemma token_take: "take (length (token s)) s = token s"
  by (induction s) auto

lemma token_append_drop: "token s @ drop (length (token s)) s = s"
  by (metis append_take_drop_id token_take)

lemma token_nonempty: "s \<noteq> [] \<Longrightarrow> spaceLen s = 0 \<Longrightarrow> token s \<noteq> []"
  by (cases s) auto

lemma token_rest: "drop (length (token s)) s = [] \<or> 0 < spaceLen (drop (length (token s)) s)"
  by (induction s) auto

lemma set_token: "set (token s) \<subseteq> set s"
  by (induction s) auto

lemma spaceFree_token: "spaceFree (token s)"
proof (induction s)
  case Nil
  then show ?case by simp
next
  case (Cons c cs)
  show ?case
  proof (cases "0 < spaceLen (c # cs)")
    case True
    then show ?thesis by simp
  next
    case False
    have "c # cs = (c # token cs) @ drop (length (token cs)) cs"
      by (simp add: token_append_drop)
    then have "spaceLen (c # token cs) = 0"
      using False spaceLen_append_zero [of "c # token cs" "drop (length (token cs)) cs"] by simp
    then show ?thesis using False Cons.IH by simp
  qed
qed

lemma token_spaceFree: "spaceFree t \<Longrightarrow> token t = t"
  by (induction t) auto

subsection \<open>Leading white space\<close>

lemma spaceLen_skipSpaces [simp]: "spaceLen (skipSpaces s) = 0"
  by (induction s rule: skipSpaces.induct) (subst skipSpaces.simps, simp)

lemma skipSpaces_Nil [simp]: "skipSpaces [] = []"
  by (subst skipSpaces.simps) simp

lemma skipSpaces_id: "spaceLen s = 0 \<Longrightarrow> skipSpaces s = s"
  by (subst skipSpaces.simps) simp

lemma set_skipSpaces: "set (skipSpaces s) \<subseteq> set s"
proof (induction s rule: skipSpaces.induct)
  case (1 s)
  show ?case
  proof (cases "0 < spaceLen s")
    case True
    then have "set (skipSpaces (drop (spaceLen s) s)) \<subseteq> set (drop (spaceLen s) s)"
      using "1.IH" by simp
    moreover have "skipSpaces s = skipSpaces (drop (spaceLen s) s)"
      using True by (subst skipSpaces.simps) simp
    ultimately show ?thesis using set_drop_subset [of "spaceLen s" s] by auto
  next
    case False
    then show ?thesis by (simp add: skipSpaces_id)
  qed
qed

subsection \<open>Fields\<close>

lemma Fields_skip:
  "Fields s =
     (if skipSpaces s = [] then []
      else token (skipSpaces s) # Fields (drop (length (token (skipSpaces s))) (skipSpaces s)))"
proof (induction s rule: Fields.induct)
  case (1 s)
  show ?case
  proof (cases "s = []")
    case True
    then show ?thesis by (simp add: Fields.simps)
  next
    case ne: False
    show ?thesis
    proof (cases "0 < spaceLen s")
      case True
      have f: "Fields s = Fields (drop (spaceLen s) s)"
        using ne True by (subst Fields.simps) simp
      have k: "skipSpaces s = skipSpaces (drop (spaceLen s) s)"
        using True by (subst skipSpaces.simps) simp
      show ?thesis unfolding f k using "1.IH"(1) [OF ne True] .
    next
      case False
      then have k: "skipSpaces s = s" by (simp add: skipSpaces_id)
      show ?thesis unfolding k using ne False by (subst Fields.simps) simp
    qed
  qed
qed

lemma Fields_Nil_iff: "Fields s = [] \<longleftrightarrow> skipSpaces s = []"
  by (subst Fields_skip) simp

lemma hd_Fields: "skipSpaces s \<noteq> [] \<Longrightarrow> hd (Fields s) = token (skipSpaces s)"
  by (subst Fields_skip) simp

lemma Fields_spaceFree: "t \<noteq> [] \<Longrightarrow> spaceFree t \<Longrightarrow> Fields t = [t]"
proof -
  assume ne: "t \<noteq> []" and sf: "spaceFree t"
  then have z: "spaceLen t = 0" by (cases t) auto
  have "Fields [] = []" by (simp add: Fields.simps)
  then show ?thesis
    using ne by (subst Fields_skip) (simp add: skipSpaces_id z token_spaceFree sf)
qed

lemma cleanLoop_eq:
  "cleanLoop acc fs =
     acc @ map (\<lambda>field. token (skipSpaces field)) (filter (\<lambda>field. skipSpaces field \<noteq> []) fs)"
  by (induction fs arbitrary: acc) (simp_all add: Let_def Fields_Nil_iff hd_Fields)

lemma cleanLoop_specTypes: "cleanLoop [] (Split params CHR '','') = specTypes params"
  by (simp add: cleanLoop_eq specTypes_def)

section \<open>Canonical signatures\<close>

subsection \<open>Split and Join\<close>

lemma splitFrom_append:
  "sep \<notin> set t \<Longrightarrow> splitFrom cur sep (t @ rest) = splitFrom (cur @ t) sep rest"
  by (induction t arbitrary: cur) auto

lemma splitFrom_no_sep_all: "sep \<notin> set cur \<Longrightarrow> \<forall>x\<in>set (splitFrom cur sep s). sep \<notin> set x"
proof (induction s arbitrary: cur)
  case Nil
  then show ?case by simp
next
  case (Cons a s)
  show ?case
  proof (cases "a = sep")
    case True
    then show ?thesis using Cons.IH [of "[]"] Cons.prems by simp
  next
    case False
    then show ?thesis using Cons.IH [of "cur @ [a]"] Cons.prems by simp
  qed
qed

lemma splitFrom_no_sep: "sep \<notin> set cur \<Longrightarrow> x \<in> set (splitFrom cur sep s) \<Longrightarrow> sep \<notin> set x"
  using splitFrom_no_sep_all by blast

lemma splitFrom_subset: "x \<in> set (splitFrom cur sep s) \<Longrightarrow> set x \<subseteq> set cur \<union> set s"
  by (induction s arbitrary: cur) (fastforce split: if_splits)+

lemma splitFrom_Join:
  "ts \<noteq> [] \<Longrightarrow> \<forall>t\<in>set ts. sep \<notin> set t \<Longrightarrow>
     splitFrom cur sep (Join ts [sep]) = (cur @ hd ts) # tl ts"
proof (induction ts "[sep]" arbitrary: cur rule: Join.induct)
  case 1
  then show ?case by simp
next
  case (2 x)
  then show ?case using splitFrom_append [of sep x cur "[]"] by simp
next
  case (3 x y ys)
  have "splitFrom cur sep (x @ sep # Join (y # ys) [sep]) =
        splitFrom (cur @ x) sep (sep # Join (y # ys) [sep])"
    using "3.prems" by (simp add: splitFrom_append)
  also have "\<dots> = (cur @ x) # splitFrom [] sep (Join (y # ys) [sep])" by simp
  also have "splitFrom [] sep (Join (y # ys) [sep]) = y # ys"
    using "3.hyps" [of "[]"] "3.prems" by simp
  finally show ?case by simp
qed

lemma Split_Join:
  "ts \<noteq> [] \<Longrightarrow> \<forall>t\<in>set ts. sep \<notin> set t \<Longrightarrow> Split (Join ts [sep]) sep = ts"
  by (simp add: Split_def splitFrom_Join)

lemma Join_notin:
  "\<forall>t\<in>set ts. c \<notin> set t \<Longrightarrow> c \<notin> set sep \<Longrightarrow> c \<notin> set (Join ts sep)"
  by (induction ts sep rule: Join.induct) auto

subsection \<open>The types the specification names\<close>

lemma specTypes_Nil: "specTypes [] = []"
  by (simp add: specTypes_def Split_def)

lemma specTypes_elem:
  assumes "t \<in> set (specTypes params)"
  shows "t \<noteq> [] \<and> spaceFree t \<and> CHR '','' \<notin> set t \<and> set t \<subseteq> set params"
proof -
  from assms obtain field where f: "field \<in> set (Split params CHR '','')"
    and ne: "skipSpaces field \<noteq> []" and t: "t = token (skipSpaces field)"
    by (auto simp: specTypes_def)
  have sub: "set t \<subseteq> set field"
    unfolding t using set_token [of "skipSpaces field"] set_skipSpaces [of field] by auto
  have "CHR '','' \<notin> set field" using f splitFrom_no_sep [of "CHR '',''" "[]"] by (auto simp: Split_def)
  moreover have "set field \<subseteq> set params" using f splitFrom_subset [of field "[]"] by (auto simp: Split_def)
  moreover have "t \<noteq> []" unfolding t using ne by (simp add: token_nonempty)
  moreover have "spaceFree t" unfolding t by (rule spaceFree_token)
  ultimately show ?thesis using sub by auto
qed

lemma specTypes_Join:
  assumes "\<forall>t\<in>set types. t \<noteq> [] \<and> spaceFree t \<and> CHR '','' \<notin> set t"
  shows "specTypes (Join types '','') = types"
proof (cases "types = []")
  case True
  then show ?thesis by (simp add: specTypes_Nil)
next
  case False
  have keep: "skipSpaces t = t \<and> token t = t" if "t \<in> set types" for t
  proof -
    from that assms have "t \<noteq> []" "spaceFree t" by auto
    then have "spaceLen t = 0" by (cases t) auto
    then show ?thesis using \<open>spaceFree t\<close> by (simp add: skipSpaces_id token_spaceFree)
  qed
  have "Split (Join types '','') CHR '','' = types"
    using False assms Split_Join [of types "CHR '',''"] by simp
  moreover have "filter (\<lambda>field. skipSpaces field \<noteq> []) types = types"
    using keep assms by (auto intro!: filter_True)
  moreover have "map (\<lambda>field. token (skipSpaces field)) types = types"
    using keep by (auto intro!: map_idI)
  ultimately show ?thesis by (simp add: specTypes_def)
qed

subsection \<open>Matching a string of the shape of a signature\<close>

lemma Find_shape:
  assumes "name \<noteq> []" and "\<forall>c\<in>set name. isWordChar c" and "\<forall>c\<in>set ws. isReSpace c"
    and "CHR '')'' \<notin> set params"
  shows "FindStringSubmatch sigRegexp (name @ ws @ ''('' @ params @ '')'' @ post) =
           Some [name @ ws @ ''('' @ params @ '')'', name, params]"
proof -
  let ?s = "name @ ws @ ''('' @ params @ '')'' @ post"
  from assms(1) obtain c cs where s: "?s = c # cs" by (cases name) auto
  have m: "matchSeq sigRegexp ?s = Some ([name, params], length name + length ws + length params + 2)"
    by (rule match_shape [OF assms])
  have "FindStringSubmatch sigRegexp (c # cs) =
          Some [take (length name + length ws + length params + 2) (c # cs), name, params]"
    using m unfolding s by simp
  then show ?thesis unfolding s [symmetric] by simp
qed

lemma formatSignature_match:
  "FindStringSubmatch sigRegexp s = Some [whole, name, params] \<Longrightarrow>
     formatSignature s = specCanonical name params"
  by (simp add: formatSignature_def specCanonical_def cleanLoop_specTypes)

lemma formatSignature_shape:
  assumes "name \<noteq> []" and "\<forall>c\<in>set name. isWordChar c" and "\<forall>c\<in>set ws. isReSpace c"
    and "CHR '')'' \<notin> set params"
  shows "formatSignature (name @ ws @ ''('' @ params @ '')'' @ post) = specCanonical name params"
  by (rule formatSignature_match [OF Find_shape [OF assms]])

lemma specCanonical_nonempty: "specCanonical name params \<noteq> []"
  by (simp add: specCanonical_def)

lemma formatSignature_canonical:
  assumes "name \<noteq> []" and "\<forall>c\<in>set name. isWordChar c"
    and "\<forall>t\<in>set types. t \<noteq> [] \<and> spaceFree t \<and> CHR '','' \<notin> set t \<and> CHR '')'' \<notin> set t"
  shows "formatSignature (name @ ''('' @ Join types '','' @ '')'') = name @ ''('' @ Join types '','' @ '')''"
proof -
  have np: "CHR '')'' \<notin> set (Join types '','')"
    using assms(3) by (intro Join_notin) auto
  have "formatSignature (name @ [] @ ''('' @ Join types '','' @ '')'' @ []) =
          specCanonical name (Join types '','')"
    using assms(1,2) np by (intro formatSignature_shape) auto
  moreover have "specTypes (Join types '','') = types"
    using assms(3) by (intro specTypes_Join) auto
  ultimately show ?thesis by (simp add: specCanonical_def)
qed

section \<open>The leftmost match\<close>

lemma match_sig_SomeD:
  assumes "matchSeq sigRegexp s = Some (caps, n)"
  shows "\<exists>name ws params post.
           s = name @ ws @ ''('' @ params @ '')'' @ post \<and> caps = [name, params] \<and>
           n = length name + length ws + length params + 2 \<and> name \<noteq> [] \<and>
           (\<forall>c\<in>set name. isWordChar c) \<and> (\<forall>c\<in>set ws. isReSpace c) \<and>
           CHR '')'' \<notin> set params"
proof -
  define name where "name = takeWhile isWordChar s"
  define r1 where "r1 = dropWhile isWordChar s"
  define ws where "ws = takeWhile isReSpace r1"
  define r2 where "r2 = dropWhile isReSpace r1"
  from assms have ne: "name \<noteq> []"
    by (auto simp: match_sigRegexp name_def split: if_splits)
  from assms ne obtain caps1 n1 where m1: "matchSeq spaceTail r1 = Some (caps1, n1)"
    and c1: "caps = name # caps1" and k1: "n = length name + n1"
    by (auto simp: match_sigRegexp name_def r1_def split: if_splits)
  from m1 obtain n2 where m2: "matchSeq lparenTail r2 = Some (caps1, n2)"
    and k2: "n1 = length ws + n2"
    by (auto simp: match_spaceTail ws_def r2_def)
  from m2 obtain r3 n3 where r2: "r2 = CHR ''('' # r3"
    and m3: "matchSeq paramsTail r3 = Some (caps1, n3)" and k3: "n2 = Suc n3"
    by (auto simp: match_lparenTail split: list.splits if_splits)
  define params where "params = takeWhile notRParen r3"
  from m3 obtain caps4 n4 where m4: "matchSeq rparenTail (dropWhile notRParen r3) = Some (caps4, n4)"
    and c4: "caps1 = params # caps4" and k4: "n3 = length params + n4"
    by (auto simp: match_paramsTail params_def)
  from m4 obtain post where r4: "dropWhile notRParen r3 = CHR '')'' # post"
    and c5: "caps4 = []" and k5: "n4 = 1"
    by (auto simp: match_rparenTail split: list.splits if_splits)
  have s1: "s = name @ r1" by (simp add: name_def r1_def)
  have s2: "r1 = ws @ r2" by (simp add: ws_def r2_def)
  have "takeWhile notRParen r3 @ dropWhile notRParen r3 = r3" by (rule takeWhile_dropWhile_id)
  then have s3: "r3 = params @ CHR '')'' # post" unfolding r4 params_def by simp
  have "s = name @ ws @ CHR ''('' # r3" using s1 s2 r2 by simp
  then have s: "s = name @ ws @ ''('' @ params @ '')'' @ post" using s3 by simp
  have "\<forall>c\<in>set name. isWordChar c" unfolding name_def by (auto dest: set_takeWhileD)
  moreover have "\<forall>c\<in>set ws. isReSpace c" unfolding ws_def by (auto dest: set_takeWhileD)
  moreover have "CHR '')'' \<notin> set params"
    unfolding params_def by (auto dest: set_takeWhileD simp: notRParen_def)
  ultimately show ?thesis using s ne c1 c4 c5 k1 k2 k3 k4 k5 by auto
qed

lemma all_drop_Cons:
  "(\<forall>i\<le>length (c # cs). P (drop i (c # cs))) \<longleftrightarrow> P (c # cs) \<and> (\<forall>i\<le>length cs. P (drop i cs))"
proof (intro iffI conjI allI impI)
  assume a: "\<forall>i\<le>length (c # cs). P (drop i (c # cs))"
  from a [rule_format, of 0] show "P (c # cs)" by simp
  fix i assume "i \<le> length cs"
  with a [rule_format, of "Suc i"] show "P (drop i cs)" by simp
next
  fix i
  assume a: "P (c # cs) \<and> (\<forall>i\<le>length cs. P (drop i cs))" and i: "i \<le> length (c # cs)"
  show "P (drop i (c # cs))"
  proof (cases i)
    case 0
    then show ?thesis using a by simp
  next
    case (Suc j)
    then have "j \<le> length cs" using i by simp
    then have "P (drop j cs)" using a by blast
    then show ?thesis using Suc by simp
  qed
qed

lemma all_drop_Cons_less:
  "(\<forall>i<length (c # pre). P (drop i (c # cs))) \<longleftrightarrow> P (c # cs) \<and> (\<forall>i<length pre. P (drop i cs))"
proof (intro iffI conjI allI impI)
  assume a: "\<forall>i<length (c # pre). P (drop i (c # cs))"
  from a [rule_format, of 0] show "P (c # cs)" by simp
  fix i assume "i < length pre"
  with a [rule_format, of "Suc i"] show "P (drop i cs)" by simp
next
  fix i
  assume a: "P (c # cs) \<and> (\<forall>i<length pre. P (drop i cs))" and i: "i < length (c # pre)"
  show "P (drop i (c # cs))"
  proof (cases i)
    case 0
    then show ?thesis using a by simp
  next
    case (Suc j)
    then have "j < length pre" using i by simp
    then have "P (drop j cs)" using a by blast
    then show ?thesis using Suc by simp
  qed
qed

lemma Find_None_iff:
  "FindStringSubmatch sigRegexp s = None \<longleftrightarrow> (\<forall>i\<le>length s. matchSeq sigRegexp (drop i s) = None)"
proof (induction s)
  case Nil
  show ?case by (cases "matchSeq sigRegexp []") auto
next
  case (Cons c cs)
  note split = all_drop_Cons [of c cs "\<lambda>t. matchSeq sigRegexp t = None"]
  show ?case
  proof (cases "matchSeq sigRegexp (c # cs)")
    case None
    then have "FindStringSubmatch sigRegexp (c # cs) = FindStringSubmatch sigRegexp cs" by simp
    then show ?thesis by (simp only: split None Cons.IH simp_thms)
  next
    case (Some a)
    then have "FindStringSubmatch sigRegexp (c # cs) \<noteq> None" by (cases a) simp
    then show ?thesis by (simp only: split Some simp_thms option.distinct)
  qed
qed

lemma Find_SomeD:
  assumes "FindStringSubmatch sigRegexp s = Some m"
  shows "\<exists>pre name ws params post.
           s = pre @ name @ ws @ ''('' @ params @ '')'' @ post \<and>
           m = [name @ ws @ ''('' @ params @ '')'', name, params] \<and> name \<noteq> [] \<and>
           (\<forall>c\<in>set name. isWordChar c) \<and> (\<forall>c\<in>set ws. isReSpace c) \<and>
           CHR '')'' \<notin> set params \<and>
           (\<forall>i<length pre. matchSeq sigRegexp (drop i s) = None)"
  using assms
proof (induction s)
  case Nil
  then obtain caps n where "matchSeq sigRegexp [] = Some (caps, n)"
    by (cases "matchSeq sigRegexp []") auto
  from match_sig_SomeD [OF this] show ?case by simp
next
  case (Cons c cs)
  show ?case
  proof (cases "matchSeq sigRegexp (c # cs)")
    case None
    with Cons.prems have "FindStringSubmatch sigRegexp cs = Some m" by simp
    from Cons.IH [OF this] obtain pre name ws params post where
      cs: "cs = pre @ name @ ws @ ''('' @ params @ '')'' @ post"
      and m: "m = [name @ ws @ ''('' @ params @ '')'', name, params]" and ne: "name \<noteq> []"
      and w: "\<forall>c\<in>set name. isWordChar c" and sp: "\<forall>c\<in>set ws. isReSpace c"
      and np: "CHR '')'' \<notin> set params"
      and early: "\<forall>i<length pre. matchSeq sigRegexp (drop i cs) = None"
      by (elim exE conjE)
    have e: "\<forall>i<length (c # pre). matchSeq sigRegexp (drop i (c # cs)) = None"
      using all_drop_Cons_less [of c pre "\<lambda>t. matchSeq sigRegexp t = None" cs] None early
      by (simp only: simp_thms)
    have s: "c # cs = (c # pre) @ name @ ws @ ''('' @ params @ '')'' @ post"
      using cs by simp
    show ?thesis
      apply (rule exI [of _ "c # pre"], rule exI [of _ name], rule exI [of _ ws])
      apply (rule exI [of _ params], rule exI [of _ post])
      using s m ne w sp np e apply (intro conjI)
      apply assumption+
      done
  next
    case (Some a)
    obtain caps n where a: "a = (caps, n)" by (cases a)
    from match_sig_SomeD [OF Some [unfolded a]] obtain name ws params post where
      s: "c # cs = name @ ws @ ''('' @ params @ '')'' @ post" and caps: "caps = [name, params]"
      and n: "n = length name + length ws + length params + 2" and ne: "name \<noteq> []"
      and w: "\<forall>c\<in>set name. isWordChar c" and sp: "\<forall>c\<in>set ws. isReSpace c"
      and np: "CHR '')'' \<notin> set params"
      by (elim exE conjE)
    have m0: "m = [take n (c # cs), name, params]"
      using Cons.prems Some a caps by simp
    have "take n (name @ ws @ ''('' @ params @ '')'' @ post) = name @ ws @ ''('' @ params @ '')''"
      unfolding n by simp
    then have m: "m = [name @ ws @ ''('' @ params @ '')'', name, params]"
      using m0 s by simp
    have s': "c # cs = [] @ name @ ws @ ''('' @ params @ '')'' @ post" using s by simp
    have e: "\<forall>i<length ([] :: string). matchSeq sigRegexp (drop i (c # cs)) = None" by simp
    show ?thesis
      apply (rule exI [of _ "[]"], rule exI [of _ name], rule exI [of _ ws])
      apply (rule exI [of _ params], rule exI [of _ post])
      using s' m ne w sp np e apply (intro conjI)
      apply assumption+
      done
  qed
qed

lemma Find_Some_caps:
  assumes "FindStringSubmatch sigRegexp s = Some m"
  obtains whole name params where "m = [whole, name, params]" and "name \<noteq> []"
    and "\<forall>c\<in>set name. isWordChar c" and "CHR '')'' \<notin> set params"
proof -
  from Find_SomeD [OF assms] obtain pre name ws params post where
    "m = [name @ ws @ ''('' @ params @ '')'', name, params]" "name \<noteq> []"
    "\<forall>c\<in>set name. isWordChar c" "CHR '')'' \<notin> set params"
    by (elim exE conjE)
  then show ?thesis by (rule that)
qed

lemma formatSignature_None:
  "FindStringSubmatch sigRegexp s = None \<Longrightarrow> formatSignature s = []"
  by (simp add: formatSignature_def)

lemma formatSignature_Nil_iff:
  "formatSignature s = [] \<longleftrightarrow> FindStringSubmatch sigRegexp s = None"
proof (cases "FindStringSubmatch sigRegexp s")
  case None
  then show ?thesis by (simp add: formatSignature_None)
next
  case (Some m)
  from Find_Some_caps [OF Some] obtain whole name params where m: "m = [whole, name, params]" .
  have "formatSignature s = specCanonical name params"
    using Some unfolding m by (rule formatSignature_match)
  then show ?thesis using Some specCanonical_nonempty [of name params] by simp
qed

lemma formatSignature_Nil: "formatSignature [] = []"
proof -
  have "matchSeq sigRegexp [] = None" by (simp add: match_sigRegexp)
  then show ?thesis by (simp add: formatSignature_def)
qed

lemma formatSignature_idem: "formatSignature (formatSignature s) = formatSignature s"
proof (cases "FindStringSubmatch sigRegexp s")
  case None
  then have "formatSignature s = []" by (rule formatSignature_None)
  then show ?thesis by (simp add: formatSignature_Nil)
next
  case (Some m)
  from Find_Some_caps [OF Some] obtain whole name params where m: "m = [whole, name, params]"
    and ne: "name \<noteq> []" and w: "\<forall>c\<in>set name. isWordChar c" and np: "CHR '')'' \<notin> set params" .
  have "formatSignature s = specCanonical name params"
    using Some unfolding m by (rule formatSignature_match)
  then have f: "formatSignature s = name @ ''('' @ Join (specTypes params) '','' @ '')''"
    by (simp add: specCanonical_def)
  have t: "\<forall>t\<in>set (specTypes params).
          t \<noteq> [] \<and> spaceFree t \<and> CHR '','' \<notin> set t \<and> CHR '')'' \<notin> set t"
  proof
    fix t assume "t \<in> set (specTypes params)"
    from specTypes_elem [OF this] np
    show "t \<noteq> [] \<and> spaceFree t \<and> CHR '','' \<notin> set t \<and> CHR '')'' \<notin> set t" by auto
  qed
  from formatSignature_canonical [OF ne w t] show ?thesis unfolding f .
qed

section \<open>Address scoping\<close>

lemma addressLoop_mem: "addressLoop a xs = (a \<in> set xs)"
  by (induction xs) auto

text \<open>
  Claim C4.  A rule with an empty address list accepts the address of every log;
  a rule with a non-empty list accepts a log exactly when the address of the log is
  equal to one of the listed addresses.
\<close>

theorem isAddressIntoConfig_scope:
  "(Addresses config = [] \<longrightarrow> isAddressIntoConfig address config) \<and>
   (Addresses config \<noteq> [] \<longrightarrow>
      (isAddressIntoConfig address config \<longleftrightarrow> address \<in> set (Addresses config)))"
  by (simp add: isAddressIntoConfig_def addressLoop_mem)

theorem isAddressIntoConfig_scope_witness:
  "isAddressIntoConfig 7 \<lparr>Name = ''R1'', Priority = ''P0'', Addresses = [], Events = []\<rparr> \<and>
   isAddressIntoConfig 7 \<lparr>Name = ''R1'', Priority = ''P0'', Addresses = [5, 7], Events = []\<rparr> \<and>
   \<not> isAddressIntoConfig 8 \<lparr>Name = ''R1'', Priority = ''P0'', Addresses = [5, 7], Events = []\<rparr>"
  using isAddressIntoConfig_scope [of "\<lparr>Name = ''R1'', Priority = ''P0'', Addresses = [], Events = []\<rparr>" 7]
    isAddressIntoConfig_scope [of "\<lparr>Name = ''R1'', Priority = ''P0'', Addresses = [5, 7], Events = []\<rparr>" 7]
    isAddressIntoConfig_scope [of "\<lparr>Name = ''R1'', Priority = ''P0'', Addresses = [5, 7], Events = []\<rparr>" 8]
  by simp

section \<open>Signatures that do not parse\<close>

lemma Find_None_shape:
  "FindStringSubmatch sigRegexp s = None \<longleftrightarrow>
     \<not> (\<exists>pre name ws params post.
           s = pre @ name @ ws @ ''('' @ params @ '')'' @ post \<and> name \<noteq> [] \<and>
           (\<forall>c\<in>set name. isWordChar c) \<and> (\<forall>c\<in>set ws. isReSpace c) \<and>
           CHR '')'' \<notin> set params)"
proof
  assume none: "FindStringSubmatch sigRegexp s = None"
  show "\<not> (\<exists>pre name ws params post.
           s = pre @ name @ ws @ ''('' @ params @ '')'' @ post \<and> name \<noteq> [] \<and>
           (\<forall>c\<in>set name. isWordChar c) \<and> (\<forall>c\<in>set ws. isReSpace c) \<and>
           CHR '')'' \<notin> set params)"
  proof
    assume "\<exists>pre name ws params post.
           s = pre @ name @ ws @ ''('' @ params @ '')'' @ post \<and> name \<noteq> [] \<and>
           (\<forall>c\<in>set name. isWordChar c) \<and> (\<forall>c\<in>set ws. isReSpace c) \<and>
           CHR '')'' \<notin> set params"
    then obtain pre name ws params post where
      s: "s = pre @ name @ ws @ ''('' @ params @ '')'' @ post" and ne: "name \<noteq> []"
      and w: "\<forall>c\<in>set name. isWordChar c" and sp: "\<forall>c\<in>set ws. isReSpace c"
      and np: "CHR '')'' \<notin> set params"
      by (elim exE conjE)
    define rest where "rest = name @ ws @ ''('' @ params @ '')'' @ post"
    have m: "matchSeq sigRegexp rest \<noteq> None"
      unfolding rest_def using match_shape [OF ne w sp np, of post] by simp
    have s': "s = pre @ rest" unfolding rest_def by (rule s)
    have d: "drop (length pre) s = rest" unfolding s' by simp
    have l: "length pre \<le> length s" unfolding s' by simp
    from none have "\<forall>i\<le>length s. matchSeq sigRegexp (drop i s) = None"
      by (simp only: Find_None_iff)
    from this [rule_format, OF l] m show False unfolding d by simp
  qed
next
  assume no: "\<not> (\<exists>pre name ws params post.
           s = pre @ name @ ws @ ''('' @ params @ '')'' @ post \<and> name \<noteq> [] \<and>
           (\<forall>c\<in>set name. isWordChar c) \<and> (\<forall>c\<in>set ws. isReSpace c) \<and>
           CHR '')'' \<notin> set params)"
  show "FindStringSubmatch sigRegexp s = None"
  proof (cases "FindStringSubmatch sigRegexp s")
    case None
    then show ?thesis .
  next
    case (Some m)
    from Find_SomeD [OF Some] obtain pre name ws params post where
      a: "s = pre @ name @ ws @ ''('' @ params @ '')'' @ post" "name \<noteq> []"
      "\<forall>c\<in>set name. isWordChar c" "\<forall>c\<in>set ws. isReSpace c" "CHR '')'' \<notin> set params"
      by (elim exE conjE)
    have f: "s = pre @ name @ ws @ ''('' @ params @ '')'' @ post \<and> name \<noteq> [] \<and>
      (\<forall>c\<in>set name. isWordChar c) \<and> (\<forall>c\<in>set ws. isReSpace c) \<and> CHR '')'' \<notin> set params"
      using a by (intro conjI)
    have "\<exists>pre name ws params post.
           s = pre @ name @ ws @ ''('' @ params @ '')'' @ post \<and> name \<noteq> [] \<and>
           (\<forall>c\<in>set name. isWordChar c) \<and> (\<forall>c\<in>set ws. isReSpace c) \<and>
           CHR '')'' \<notin> set params"
      apply (rule exI [of _ pre], rule exI [of _ name], rule exI [of _ ws])
      apply (rule exI [of _ params], rule exI [of _ post])
      apply (rule f)
      done
    with no show ?thesis by (elim notE)
  qed
qed

lemma FormatAndHash_Inl_iff:
  "FormatAndHash Keccak256 s = Inl e \<longleftrightarrow> formatSignature s = [] \<and> e = Panic ''Invalid signature''"
  by (auto simp: FormatAndHash_def Let_def)

lemma FormatAndHash_Inr:
  "formatSignature s \<noteq> [] \<Longrightarrow>
     FormatAndHash Keccak256 s = Inr (BytesToHash (Keccak256 (formatSignature s)))"
  by (simp add: FormatAndHash_def Let_def)

section \<open>Canonicalization\<close>

text \<open>
  Claim C1.  A signature of the shape \<open>name(params)\<close> is a name of word characters, white
  space that the pattern allows before the parenthesis, and a parameter list without a
  closing parenthesis.  On every such string \<open>formatSignature\<close> returns the canonical form
  of the specification: the name, an opening parenthesis, the first white-space-separated
  token of every comma-separated field that is not only white space, in the order of the
  fields and joined by commas, and a closing parenthesis.  No type is empty, none contains
  white space or a comma, and an empty parameter list gives no type at all.
\<close>

theorem formatSignature_refines_spec:
  assumes "name \<noteq> []" and "\<forall>c\<in>set name. isWordChar c" and "\<forall>c\<in>set ws. isReSpace c"
    and "CHR '')'' \<notin> set params"
  shows "formatSignature (name @ ws @ ''('' @ params @ '')'') = specCanonical name params \<and>
         (\<forall>t\<in>set (specTypes params). t \<noteq> [] \<and> spaceFree t \<and> CHR '','' \<notin> set t) \<and>
         (params = [] \<longrightarrow> specTypes params = [] \<and> specCanonical name params = name @ ''()'')"
proof (intro conjI)
  show "formatSignature (name @ ws @ ''('' @ params @ '')'') = specCanonical name params"
    using formatSignature_shape [OF assms, of "[]"] by simp
  show "\<forall>t\<in>set (specTypes params). t \<noteq> [] \<and> spaceFree t \<and> CHR '','' \<notin> set t"
    using specTypes_elem [of _ params] by blast
  show "params = [] \<longrightarrow> specTypes params = [] \<and> specCanonical name params = name @ ''()''"
    by (simp add: specTypes_Nil specCanonical_def)
qed

text \<open>
  The example of the specification, a parameter list with fields of white space only, and
  the empty parameter list.
\<close>

theorem formatSignature_refines_spec_witness:
  "formatSignature ''transfer(address owner, uint256 amount)'' = ''transfer(address,uint256)'' \<and>
   formatSignature ''f ( , a ,)'' = ''f(a)'' \<and>
   formatSignature ''f()'' = ''f()''"
proof -
  have w1: "\<forall>c\<in>set ''transfer''. isWordChar c" by code_simp
  have w2: "\<forall>c\<in>set ''f''. isWordChar c" by code_simp
  have s2: "\<forall>c\<in>set '' ''. isReSpace c" by code_simp
  have c1: "specCanonical ''transfer'' ''address owner, uint256 amount'' = ''transfer(address,uint256)''"
    by code_simp
  have c2: "specCanonical ''f'' '' , a ,'' = ''f(a)''" by code_simp
  have c3: "specCanonical ''f'' [] = ''f()''" by code_simp
  from formatSignature_refines_spec [of "''transfer''" "[]" "''address owner, uint256 amount''"] w1 c1
  have "formatSignature ''transfer(address owner, uint256 amount)'' = ''transfer(address,uint256)''"
    by simp
  moreover from formatSignature_refines_spec [of "''f''" "'' ''" "'' , a ,''"] w2 s2 c2
  have "formatSignature ''f ( , a ,)'' = ''f(a)''" by simp
  moreover from formatSignature_refines_spec [of "''f''" "[]" "[]"] w2 c3
  have "formatSignature ''f()'' = ''f()''" by simp
  ultimately show ?thesis by simp
qed

text \<open>
  Claim C9.  A canonical signature is a name of word characters followed by the
  parenthesised types, each of them non-empty and free of white space, commas and closing
  parentheses, joined by commas: \<open>formatSignature\<close> returns it unchanged.  Every result of
  \<open>formatSignature\<close> is of this form or empty, so applying it twice is applying it once.
\<close>

theorem formatSignature_idempotent:
  "(name \<noteq> [] \<and> (\<forall>c\<in>set name. isWordChar c) \<and>
    (\<forall>t\<in>set types. t \<noteq> [] \<and> spaceFree t \<and> CHR '','' \<notin> set t \<and> CHR '')'' \<notin> set t) \<longrightarrow>
      formatSignature (name @ ''('' @ Join types '','' @ '')'') = name @ ''('' @ Join types '','' @ '')'') \<and>
   formatSignature (formatSignature s) = formatSignature s"
  using formatSignature_canonical [of name types] formatSignature_idem [of s] by blast

theorem formatSignature_idempotent_witness:
  "formatSignature ''transfer(address,uint256)'' = ''transfer(address,uint256)'' \<and>
   formatSignature (formatSignature ''transfer(address owner, uint256 amount)'') =
     formatSignature ''transfer(address owner, uint256 amount)''"
proof -
  have w: "\<forall>c\<in>set ''transfer''. isWordChar c" by code_simp
  have t: "\<forall>t\<in>set [''address'', ''uint256''].
             t \<noteq> [] \<and> spaceFree t \<and> CHR '','' \<notin> set t \<and> CHR '')'' \<notin> set t"
    by code_simp
  from formatSignature_idempotent [of "''transfer''" "[''address'', ''uint256'']"
      "''transfer(address owner, uint256 amount)''"] w t
  show ?thesis by simp
qed

text \<open>
  Claim C10, as stated, lets the parameter segment end at the first closing parenthesis of
  the input.  The input \<open>a) f(b)\<close> has its first closing parenthesis before the match: the
  match is \<open>f(b)\<close>, and its parameter segment ends at the second one.
\<close>

theorem formatSignature_first_rparen_counterexample:
  "FindStringSubmatch sigRegexp ''a) f(b)'' = Some [''f(b)'', ''f'', ''b''] \<and>
   takeWhile notRParen ''a) f(b)'' = ''a'' \<and>
   formatSignature ''a) f(b)'' = ''f(b)''"
proof (intro conjI)
  show "FindStringSubmatch sigRegexp ''a) f(b)'' = Some [''f(b)'', ''f'', ''b'']" by code_simp
  show "takeWhile notRParen ''a) f(b)'' = ''a''" by code_simp
  show "formatSignature ''a) f(b)'' = ''f(b)''" by code_simp
qed

text \<open>
  Claim C10, amended.  When the pattern matches, the match is the leftmost substring made
  of a word, optional white space and a parenthesised segment, and the segment ends at the
  first closing parenthesis after the opening one.  So whatever follows that closing
  parenthesis has no influence on the result: a parameter list that contains a closing
  parenthesis is cut there, the result is not empty and \<open>FormatAndHash\<close> returns the hash of
  the truncated canonical form without any failure.
\<close>

theorem formatSignature_truncates_at_rparen:
  "(FindStringSubmatch sigRegexp s = Some m \<longrightarrow>
      (\<exists>pre name ws params post.
          s = pre @ name @ ws @ ''('' @ params @ '')'' @ post \<and>
          m = [name @ ws @ ''('' @ params @ '')'', name, params] \<and> name \<noteq> [] \<and>
          (\<forall>c\<in>set name. isWordChar c) \<and> (\<forall>c\<in>set ws. isReSpace c) \<and>
          CHR '')'' \<notin> set params \<and>
          (\<forall>i<length pre. matchSeq sigRegexp (drop i s) = None) \<and>
          formatSignature s = specCanonical name params)) \<and>
   (name \<noteq> [] \<and> (\<forall>c\<in>set name. isWordChar c) \<and> (\<forall>c\<in>set ws. isReSpace c) \<and>
    CHR '')'' \<notin> set params \<longrightarrow>
      formatSignature (name @ ws @ ''('' @ params @ '')'' @ post) =
        formatSignature (name @ ws @ ''('' @ params @ '')'') \<and>
      formatSignature (name @ ws @ ''('' @ params @ '')'' @ post) \<noteq> [] \<and>
      FormatAndHash Keccak256 (name @ ws @ ''('' @ params @ '')'' @ post) =
        Inr (BytesToHash (Keccak256 (specCanonical name params))))"
proof (intro conjI impI)
  assume f: "FindStringSubmatch sigRegexp s = Some m"
  from Find_SomeD [OF f] obtain pre name ws params post where
    a: "s = pre @ name @ ws @ ''('' @ params @ '')'' @ post"
       "m = [name @ ws @ ''('' @ params @ '')'', name, params]" "name \<noteq> []"
       "\<forall>c\<in>set name. isWordChar c" "\<forall>c\<in>set ws. isReSpace c" "CHR '')'' \<notin> set params"
       "\<forall>i<length pre. matchSeq sigRegexp (drop i s) = None"
    by (elim exE conjE)
  have "formatSignature s = specCanonical name params"
    using f unfolding a(2) by (rule formatSignature_match)
  with a have g: "s = pre @ name @ ws @ ''('' @ params @ '')'' @ post \<and>
          m = [name @ ws @ ''('' @ params @ '')'', name, params] \<and> name \<noteq> [] \<and>
          (\<forall>c\<in>set name. isWordChar c) \<and> (\<forall>c\<in>set ws. isReSpace c) \<and>
          CHR '')'' \<notin> set params \<and>
          (\<forall>i<length pre. matchSeq sigRegexp (drop i s) = None) \<and>
          formatSignature s = specCanonical name params"
    by (intro conjI)
  show "\<exists>pre name ws params post.
          s = pre @ name @ ws @ ''('' @ params @ '')'' @ post \<and>
          m = [name @ ws @ ''('' @ params @ '')'', name, params] \<and> name \<noteq> [] \<and>
          (\<forall>c\<in>set name. isWordChar c) \<and> (\<forall>c\<in>set ws. isReSpace c) \<and>
          CHR '')'' \<notin> set params \<and>
          (\<forall>i<length pre. matchSeq sigRegexp (drop i s) = None) \<and>
          formatSignature s = specCanonical name params"
    apply (rule exI [of _ pre], rule exI [of _ name], rule exI [of _ ws])
    apply (rule exI [of _ params], rule exI [of _ post])
    apply (rule g)
    done
next
  assume c: "name \<noteq> [] \<and> (\<forall>c\<in>set name. isWordChar c) \<and> (\<forall>c\<in>set ws. isReSpace c) \<and>
    CHR '')'' \<notin> set params"
  then have ne: "name \<noteq> []" and w: "\<forall>c\<in>set name. isWordChar c"
    and sp: "\<forall>c\<in>set ws. isReSpace c" and np: "CHR '')'' \<notin> set params"
    by simp_all
  have long: "formatSignature (name @ ws @ ''('' @ params @ '')'' @ post) = specCanonical name params"
    by (rule formatSignature_shape [OF ne w sp np])
  have short: "formatSignature (name @ ws @ ''('' @ params @ '')'') = specCanonical name params"
    using formatSignature_shape [OF ne w sp np, of "[]"] by simp
  show "formatSignature (name @ ws @ ''('' @ params @ '')'' @ post) =
        formatSignature (name @ ws @ ''('' @ params @ '')'')"
    by (simp only: long short)
  have nz: "formatSignature (name @ ws @ ''('' @ params @ '')'' @ post) \<noteq> []"
    by (simp only: long specCanonical_nonempty not_False_eq_True)
  show "formatSignature (name @ ws @ ''('' @ params @ '')'' @ post) \<noteq> []" by (rule nz)
  show "FormatAndHash Keccak256 (name @ ws @ ''('' @ params @ '')'' @ post) =
        Inr (BytesToHash (Keccak256 (specCanonical name params)))"
    using FormatAndHash_Inr [OF nz, of Keccak256] by (simp only: long)
qed

theorem formatSignature_truncates_at_rparen_witness:
  "formatSignature ''f((uint256,address) x, bool b)'' = ''f((uint256,address)'' \<and>
   formatSignature ''f((uint256,address) x, bool b)'' = formatSignature ''f((uint256,address)'' \<and>
   FormatAndHash exampleDigest ''f((uint256,address) x, bool b)'' =
     Inr (BytesToHash (exampleDigest ''f((uint256,address)'')) \<and>
   formatSignature ''a) f(b)'' = ''f(b)''"
proof -
  have w: "\<forall>c\<in>set ''f''. isWordChar c" by code_simp
  have np: "CHR '')'' \<notin> set ''(uint256,address''" by code_simp
  have c: "specCanonical ''f'' ''(uint256,address'' = ''f((uint256,address)''" by code_simp
  have pre: "''f'' \<noteq> [] \<and> (\<forall>c\<in>set ''f''. isWordChar c) \<and> (\<forall>c\<in>set ([] :: string). isReSpace c) \<and>
      CHR '')'' \<notin> set ''(uint256,address''"
    using w np by simp
  note r = formatSignature_truncates_at_rparen [of _ _ "''f''" "[]" "''(uint256,address''"
      "'' x, bool b)''" exampleDigest, THEN conjunct2, THEN mp, OF pre]
  have e1: "''f'' @ [] @ ''('' @ ''(uint256,address'' @ '')'' @ '' x, bool b)'' =
            ''f((uint256,address) x, bool b)''" by simp
  have e2: "''f'' @ [] @ ''('' @ ''(uint256,address'' @ '')'' = ''f((uint256,address)''" by simp
  note r' = r [unfolded e1 e2 c]
  have t: "formatSignature ''f((uint256,address) x, bool b)'' = formatSignature ''f((uint256,address)''"
    by (rule r' [THEN conjunct1])
  have h: "FormatAndHash exampleDigest ''f((uint256,address) x, bool b)'' =
     Inr (BytesToHash (exampleDigest ''f((uint256,address)''))"
    by (rule r' [THEN conjunct2, THEN conjunct2])
  have s: "formatSignature ''f((uint256,address)'' = ''f((uint256,address)''" by code_simp
  have fm: "FindStringSubmatch sigRegexp ''a) f(b)'' = Some [''f(b)'', ''f'', ''b'']" by code_simp
  have c2: "specCanonical ''f'' ''b'' = ''f(b)''" by code_simp
  from formatSignature_truncates_at_rparen [of "''a) f(b)''" "[''f(b)'', ''f'', ''b'']",
      THEN conjunct1, rule_format, OF fm]
  obtain pre name ws params post
    where l: "[''f(b)'', ''f'', ''b''] = [name @ ws @ ''('' @ params @ '')'', name, params]"
    and g: "formatSignature ''a) f(b)'' = specCanonical name params"
    by (elim exE conjE)
  from l have "name = ''f''" and "params = ''b''" by auto
  with g c2 have "formatSignature ''a) f(b)'' = ''f(b)''" by simp
  with t h s show ?thesis by simp
qed

section \<open>Hashing\<close>

text \<open>
  Claim C2.  When the canonical form is not empty, \<open>FormatAndHash\<close> returns the hash made
  from the digest of exactly the bytes of the canonical signature, with nothing added
  before or after them; two signatures with the same canonical form get the same topic; and
  for a signature already canonical the digest is taken of the signature itself.
\<close>

theorem FormatAndHash_keccak_of_canonical:
  "(formatSignature s \<noteq> [] \<longrightarrow>
      FormatAndHash Keccak256 s = Inr (BytesToHash (Keccak256 (formatSignature s)))) \<and>
   (formatSignature a = formatSignature b \<longrightarrow>
      FormatAndHash Keccak256 a = FormatAndHash Keccak256 b) \<and>
   (name \<noteq> [] \<and> (\<forall>c\<in>set name. isWordChar c) \<and>
    (\<forall>t\<in>set types. t \<noteq> [] \<and> spaceFree t \<and> CHR '','' \<notin> set t \<and> CHR '')'' \<notin> set t) \<longrightarrow>
      FormatAndHash Keccak256 (name @ ''('' @ Join types '','' @ '')'') =
        Inr (BytesToHash (Keccak256 (name @ ''('' @ Join types '','' @ '')''))))"
proof (intro conjI impI)
  assume "formatSignature s \<noteq> []"
  then show "FormatAndHash Keccak256 s = Inr (BytesToHash (Keccak256 (formatSignature s)))"
    by (rule FormatAndHash_Inr)
next
  assume "formatSignature a = formatSignature b"
  then show "FormatAndHash Keccak256 a = FormatAndHash Keccak256 b"
    by (simp add: FormatAndHash_def)
next
  assume c: "name \<noteq> [] \<and> (\<forall>c\<in>set name. isWordChar c) \<and>
    (\<forall>t\<in>set types. t \<noteq> [] \<and> spaceFree t \<and> CHR '','' \<notin> set t \<and> CHR '')'' \<notin> set t)"
  let ?c = "name @ ''('' @ Join types '','' @ '')''"
  from c have f: "formatSignature ?c = ?c" by (intro formatSignature_canonical) simp_all
  then have "formatSignature ?c \<noteq> []" by simp
  from FormatAndHash_Inr [OF this, of Keccak256] f
  show "FormatAndHash Keccak256 ?c = Inr (BytesToHash (Keccak256 ?c))" by simp
qed

theorem FormatAndHash_keccak_of_canonical_witness:
  "FormatAndHash exampleDigest ''transfer(address,uint256)'' =
     Inr (BytesToHash (exampleDigest ''transfer(address,uint256)'')) \<and>
   FormatAndHash exampleDigest ''transfer(address owner, uint256 amount)'' =
     FormatAndHash exampleDigest ''transfer(address,uint256)''"
proof -
  have w: "\<forall>c\<in>set ''transfer''. isWordChar c" by code_simp
  have t: "\<forall>t\<in>set [''address'', ''uint256''].
             t \<noteq> [] \<and> spaceFree t \<and> CHR '','' \<notin> set t \<and> CHR '')'' \<notin> set t"
    by code_simp
  have e: "formatSignature ''transfer(address owner, uint256 amount)'' =
           formatSignature ''transfer(address,uint256)''"
    by code_simp
  note inst = FormatAndHash_keccak_of_canonical [of "''transfer(address,uint256)''" exampleDigest
      "''transfer(address owner, uint256 amount)''" "''transfer(address,uint256)''"
      "''transfer''" "[''address'', ''uint256'']"]
  from inst w t have "FormatAndHash exampleDigest ''transfer(address,uint256)'' =
     Inr (BytesToHash (exampleDigest ''transfer(address,uint256)''))" by simp
  moreover from inst e have "FormatAndHash exampleDigest ''transfer(address owner, uint256 amount)'' =
     FormatAndHash exampleDigest ''transfer(address,uint256)''" by blast
  ultimately show ?thesis by (rule conjI)
qed

text \<open>
  Claim C8, as stated, has invalid input signalled as a typed failure and hashing never
  panic.  On the empty string, and on a name without parentheses, \<open>FormatAndHash\<close> panics.
\<close>

theorem FormatAndHash_invalid_counterexample:
  "FormatAndHash exampleDigest [] = Inl (Panic ''Invalid signature'') \<and>
   FormatAndHash exampleDigest ''transfer'' = Inl (Panic ''Invalid signature'')"
proof -
  have "formatSignature [] = []" by (rule formatSignature_Nil)
  moreover have "formatSignature ''transfer'' = []" by code_simp
  ultimately show ?thesis by (simp add: FormatAndHash_def)
qed

text \<open>
  Claim C8, amended.  \<open>FormatAndHash\<close> panics with ``Invalid signature'' exactly on the
  signatures that do not parse, those without any substring made of a word, optional white
  space and a parenthesised segment; these are the inputs on which \<open>formatSignature\<close>
  returns the empty string, the empty signature among them.  On every other input it
  returns the hash of the canonical form.
\<close>

theorem FormatAndHash_panics_iff_unparsable:
  "(FormatAndHash Keccak256 s = Inl (Panic ''Invalid signature'') \<longleftrightarrow>
      \<not> (\<exists>pre name ws params post.
            s = pre @ name @ ws @ ''('' @ params @ '')'' @ post \<and> name \<noteq> [] \<and>
            (\<forall>c\<in>set name. isWordChar c) \<and> (\<forall>c\<in>set ws. isReSpace c) \<and>
            CHR '')'' \<notin> set params)) \<and>
   (FormatAndHash Keccak256 s = Inl (Panic ''Invalid signature'') \<longleftrightarrow> formatSignature s = []) \<and>
   (FormatAndHash Keccak256 s \<noteq> Inl (Panic ''Invalid signature'') \<longrightarrow>
      FormatAndHash Keccak256 s = Inr (BytesToHash (Keccak256 (formatSignature s)))) \<and>
   formatSignature [] = [] \<and>
   FormatAndHash Keccak256 [] = Inl (Panic ''Invalid signature'')"
proof -
  have p: "FormatAndHash Keccak256 s = Inl (Panic ''Invalid signature'') \<longleftrightarrow> formatSignature s = []"
    for s by (simp add: FormatAndHash_Inl_iff)
  have "formatSignature s = [] \<longleftrightarrow>
      \<not> (\<exists>pre name ws params post.
            s = pre @ name @ ws @ ''('' @ params @ '')'' @ post \<and> name \<noteq> [] \<and>
            (\<forall>c\<in>set name. isWordChar c) \<and> (\<forall>c\<in>set ws. isReSpace c) \<and>
            CHR '')'' \<notin> set params)"
    by (simp only: formatSignature_Nil_iff Find_None_shape)
  moreover have "FormatAndHash Keccak256 s \<noteq> Inl (Panic ''Invalid signature'') \<longrightarrow>
      FormatAndHash Keccak256 s = Inr (BytesToHash (Keccak256 (formatSignature s)))"
    by (simp add: FormatAndHash_def Let_def)
  ultimately show ?thesis
    by (simp only: p formatSignature_Nil simp_thms)
qed

theorem FormatAndHash_panics_iff_unparsable_witness:
  "FormatAndHash exampleDigest ''transfer'' = Inl (Panic ''Invalid signature'') \<and>
   FormatAndHash exampleDigest ''f(a)'' = Inr (BytesToHash (exampleDigest ''f(a)''))"
proof -
  have n: "formatSignature ''transfer'' = []" by code_simp
  have f: "formatSignature ''f(a)'' = ''f(a)''" by code_simp
  note i1 = FormatAndHash_panics_iff_unparsable [of exampleDigest "''transfer''"]
  note i2 = FormatAndHash_panics_iff_unparsable [of exampleDigest "''f(a)''"]
  from i1 [THEN conjunct2, THEN conjunct1] n
  have "FormatAndHash exampleDigest ''transfer'' = Inl (Panic ''Invalid signature'')" by simp
  moreover have "FormatAndHash exampleDigest ''f(a)'' = Inr (BytesToHash (exampleDigest ''f(a)''))"
  proof -
    from i2 [THEN conjunct2, THEN conjunct1] f
    have "FormatAndHash exampleDigest ''f(a)'' \<noteq> Inl (Panic ''Invalid signature'')" by simp
    with i2 [THEN conjunct2, THEN conjunct2, THEN conjunct1]
    have "FormatAndHash exampleDigest ''f(a)'' =
            Inr (BytesToHash (exampleDigest (formatSignature ''f(a)'')))" by (rule mp)
    then show ?thesis by (simp only: f)
  qed
  ultimately show ?thesis by (rule conjI)
qed

section \<open>Matching logs against the rules\<close>

lemma checkLogs_append: "checkLogs m (xs @ ys) = checkLogs (checkLogs m xs) ys"
  by (induction xs arbitrary: m) simp_all

lemma checkLog_anonymous: "Topics vLog = [] \<Longrightarrow> checkLog m vLog = m"
  by (simp add: checkLog_def)

lemma checkLogs_anonymous: "\<forall>vLog\<in>set logs. Topics vLog = [] \<Longrightarrow> checkLogs m logs = m"
  by (induction logs arbitrary: m) (simp_all add: checkLog_anonymous)

text \<open>
  Claim C3.  A log without topics leaves the monitor as it is, whatever the lookup would
  return: no record is printed and no gauge is set.  Within the logs of a block such a log
  can be dropped without changing the outcome of the loop.
\<close>

theorem anonymous_log_never_matches:
  assumes "Topics vLog = []"
  shows "checkLog m vLog = m \<and>
         checkLogs m (before @ vLog # after) = checkLogs m (before @ after)"
  using assms by (simp add: checkLogs_append checkLog_anonymous)

theorem anonymous_log_never_matches_witness:
  "Topics anonymousLog = [] \<and>
   checkLog (freshMonitor (\<lambda>topic. ruleR1) []) anonymousLog = freshMonitor (\<lambda>topic. ruleR1) [] \<and>
   checkLogs (freshMonitor (\<lambda>topic. ruleR1) []) [transferLog, anonymousLog] =
     checkLogs (freshMonitor (\<lambda>topic. ruleR1) []) [transferLog]"
proof -
  have a: "Topics anonymousLog = []" by (simp add: anonymousLog_def)
  from anonymous_log_never_matches [OF a, of "freshMonitor (\<lambda>topic. ruleR1) []" "[transferLog]" "[]"]
  show ?thesis using a by simp
qed

text \<open>
  Claim C5, as stated, gives one match per rule when two rules share the signature of a
  log.  The lookup hands \<open>checkEvents\<close> one \<open>Configuration\<close>: whether that is the first or
  the second of the two rules, one record is printed and one sample is set.
\<close>

theorem one_log_two_rules_counterexample:
  "stdout (checkEvents (freshMonitor (\<lambda>topic. if topic = transferTopic then ruleR1 else noRule) [transferLog])) =
     [(1, 0xABCD, [transferTopic], ruleR1)] \<and>
   eventEmitted (checkEvents (freshMonitor (\<lambda>topic. if topic = transferTopic then ruleR1 else noRule) [transferLog])) =
     [(''nick'', ''R1'', ''P0'', ''Transfer(address,address,uint256)'', 0xABCD) \<mapsto> 1] \<and>
   stdout (checkEvents (freshMonitor (\<lambda>topic. if topic = transferTopic then ruleR2 else noRule) [transferLog])) =
     [(1, 0xABCD, [transferTopic], ruleR2)] \<and>
   eventEmitted (checkEvents (freshMonitor (\<lambda>topic. if topic = transferTopic then ruleR2 else noRule) [transferLog])) =
     [(''nick'', ''R2'', ''P1'', ''Transfer(address,address,uint256)'', 0xABCD) \<mapsto> 1]"
  by (simp add: checkEvents_def freshMonitor_def checkLog_def transferLog_def ruleR1_def ruleR2_def
      isAddressIntoConfig_def Let_def)

text \<open>
  Claim C5, amended.  One log yields at most one match.  When the log has a topic, the
  \<open>Configuration\<close> that the lookup returns for the first topic has an event and the address
  is in its scope, exactly one record is printed and the sample labelled with that rule is
  set to 1; otherwise the monitor is unchanged.
\<close>

theorem one_log_at_most_one_match:
  "(0 < length (Topics vLog) \<and>
    0 < length (Events (SearchIfATopicIsInsideAnAlert m (Topics vLog ! 0))) \<and>
    isAddressIntoConfig (Address vLog) (SearchIfATopicIsInsideAnAlert m (Topics vLog ! 0)) \<longrightarrow>
      stdout (checkLog m vLog) =
        stdout m @ [(TxHash vLog, Address vLog, Topics vLog,
                     SearchIfATopicIsInsideAnAlert m (Topics vLog ! 0))] \<and>
      eventEmitted (checkLog m vLog) =
        (eventEmitted m)
          ((nickname m, Name (SearchIfATopicIsInsideAnAlert m (Topics vLog ! 0)),
            Priority (SearchIfATopicIsInsideAnAlert m (Topics vLog ! 0)),
            Signature (Events (SearchIfATopicIsInsideAnAlert m (Topics vLog ! 0)) ! 0),
            Address vLog) \<mapsto> 1)) \<and>
   (\<not> (0 < length (Topics vLog) \<and>
    0 < length (Events (SearchIfATopicIsInsideAnAlert m (Topics vLog ! 0))) \<and>
    isAddressIntoConfig (Address vLog) (SearchIfATopicIsInsideAnAlert m (Topics vLog ! 0))) \<longrightarrow>
      checkLog m vLog = m) \<and>
   length (stdout (checkLog m vLog)) \<le> Suc (length (stdout m))"
  by (simp add: checkLog_def Let_def)

theorem one_log_at_most_one_match_witness:
  "stdout (checkLog (freshMonitor (\<lambda>topic. ruleR1) []) transferLog) =
     [(1, 0xABCD, [transferTopic], ruleR1)] \<and>
   eventEmitted (checkLog (freshMonitor (\<lambda>topic. ruleR1) []) transferLog) =
     [(''nick'', ''R1'', ''P0'', ''Transfer(address,address,uint256)'', 0xABCD) \<mapsto> 1] \<and>
   checkLog (freshMonitor (\<lambda>topic. noRule) []) transferLog = freshMonitor (\<lambda>topic. noRule) []"
proof -
  have a: "isAddressIntoConfig (Address transferLog) ruleR1"
    by (simp add: isAddressIntoConfig_def ruleR1_def)
  from one_log_at_most_one_match [of transferLog "freshMonitor (\<lambda>topic. ruleR1) []"] a
  have "stdout (checkLog (freshMonitor (\<lambda>topic. ruleR1) []) transferLog) =
     [(1, 0xABCD, [transferTopic], ruleR1)] \<and>
   eventEmitted (checkLog (freshMonitor (\<lambda>topic. ruleR1) []) transferLog) =
     [(''nick'', ''R1'', ''P0'', ''Transfer(address,address,uint256)'', 0xABCD) \<mapsto> 1]"
    by (simp add: freshMonitor_def transferLog_def ruleR1_def)
  moreover from one_log_at_most_one_match [of transferLog "freshMonitor (\<lambda>topic. noRule) []"]
  have "checkLog (freshMonitor (\<lambda>topic. noRule) []) transferLog = freshMonitor (\<lambda>topic. noRule) []"
    by (simp add: freshMonitor_def noRule_def)
  ultimately show ?thesis by simp
qed

section \<open>Failures of the node during a tick\<close>

text \<open>
  In the global events monitor a failed header fetch or log fetch increments its error
  counter by one and ends the tick: no gauge is set and nothing is printed.  The tip monitor
  does the same.  A tick after a failed one matches as if the failed tick had not happened.
\<close>

lemma checkEvents_HeaderByNumber_fails:
  assumes "HeaderByNumber (l1Client m) = Inl err"
  shows "eventEmitted (checkEvents m) = eventEmitted m \<and> stdout (checkEvents m) = stdout m \<and>
         unexpectedRpcErrors (checkEvents m) (''L1'', ''HeaderByNumber'') =
           unexpectedRpcErrors m (''L1'', ''HeaderByNumber'') + 1 \<and>
         (\<forall>labels. labels \<noteq> (''L1'', ''HeaderByNumber'') \<longrightarrow>
            unexpectedRpcErrors (checkEvents m) labels = unexpectedRpcErrors m labels)"
  using assms by (simp add: checkEvents_def Inc_def)

lemma checkEvents_FilterLogs_fails:
  assumes "HeaderByNumber (l1Client m) = Inr header"
    and "FilterLogs (l1Client m) \<lparr>FromBlock = Number header, ToBlock = Number header\<rparr> = Inl err"
  shows "eventEmitted (checkEvents m) = eventEmitted m \<and> stdout (checkEvents m) = stdout m \<and>
         unexpectedRpcErrors (checkEvents m) (''L1'', ''FilterLogs'') =
           unexpectedRpcErrors m (''L1'', ''FilterLogs'') + 1 \<and>
         (\<forall>labels. labels \<noteq> (''L1'', ''FilterLogs'') \<longrightarrow>
            unexpectedRpcErrors (checkEvents m) labels = unexpectedRpcErrors m labels)"
  using assms by (simp add: checkEvents_def Inc_def Let_def)

lemma Run_tip_fails:
  assumes "CallContext m = Inl err"
  shows "laggingDistance (Run_tip m) = laggingDistance m \<and>
         blockNumTransactions (Run_tip m) = blockNumTransactions m \<and>
         unexpectedRpcErrors_tip (Run_tip m) (''laggingDistance'', ''eth_getBlockByNumber'') =
           unexpectedRpcErrors_tip m (''laggingDistance'', ''eth_getBlockByNumber'') + 1"
  using assms by (simp add: Run_tip_def Inc_def Let_def)

lemma checkLog_sameMatching:
  "sameMatching m m' \<Longrightarrow> sameMatching (checkLog m vLog) (checkLog m' vLog)"
  by (simp add: sameMatching_def checkLog_def Let_def)

lemma checkLogs_sameMatching:
  "sameMatching m m' \<Longrightarrow> sameMatching (checkLogs m logs) (checkLogs m' logs)"
  by (induction logs arbitrary: m m') (simp_all add: checkLog_sameMatching)

lemma checkEvents_sameMatching:
  assumes "sameMatching m m'" and "l1Client m = l1Client m'"
  shows "sameMatching (checkEvents m) (checkEvents m')"
proof (cases "HeaderByNumber (l1Client m')")
  case (Inl err)
  then show ?thesis using assms by (simp add: checkEvents_def sameMatching_def)
next
  case (Inr header)
  show ?thesis
  proof (cases "FilterLogs (l1Client m') \<lparr>FromBlock = Number header, ToBlock = Number header\<rparr>")
    case (Inl err)
    then show ?thesis using assms Inr by (simp add: checkEvents_def sameMatching_def Let_def)
  next
    case logs: (Inr logs)
    from checkLogs_sameMatching [OF assms(1), of logs]
    show ?thesis using assms(2) Inr logs by (simp add: checkEvents_def sameMatching_def Let_def)
  qed
qed

lemma checkEvents_failed_sameMatching:
  assumes "HeaderByNumber (l1Client m) = Inl err \<or>
           (\<exists>header. HeaderByNumber (l1Client m) = Inr header \<and>
              (\<exists>err. FilterLogs (l1Client m) \<lparr>FromBlock = Number header, ToBlock = Number header\<rparr> = Inl err))"
  shows "sameMatching (checkEvents m) m"
  using assms by (auto simp: checkEvents_def sameMatching_def Let_def)

lemma checkEvents_after_failed_tick:
  assumes "HeaderByNumber (l1Client m) = Inl err \<or>
           (\<exists>header. HeaderByNumber (l1Client m) = Inr header \<and>
              (\<exists>err. FilterLogs (l1Client m) \<lparr>FromBlock = Number header, ToBlock = Number header\<rparr> = Inl err))"
  shows "eventEmitted (checkEvents ((checkEvents m)\<lparr>l1Client := next\<rparr>)) =
           eventEmitted (checkEvents (m\<lparr>l1Client := next\<rparr>)) \<and>
         stdout (checkEvents ((checkEvents m)\<lparr>l1Client := next\<rparr>)) =
           stdout (checkEvents (m\<lparr>l1Client := next\<rparr>))"
proof -
  from checkEvents_failed_sameMatching [OF assms]
  have "sameMatching ((checkEvents m)\<lparr>l1Client := next\<rparr>) (m\<lparr>l1Client := next\<rparr>)"
    by (simp add: sameMatching_def)
  from checkEvents_sameMatching [OF this] show ?thesis by (simp add: sameMatching_def)
qed

text \<open>
  Claim C6.  The liveness expiration monitor does not end the tick after a failure.  When
  the block number cannot be fetched and the other calls succeed, \<open>Run\<close> increments the
  error counter for \<open>blockNumber\<close> and goes on: it sets the gauge of the owner, the gauge of
  the interval, and the gauge of the highest block number to 0.
\<close>

theorem liveness_blockNumber_failure_still_sets_gauges:
  "(case Run_le (freshLiveness (0, Some ''timeout'') (\<lambda>owner. (Some 5, None)) (Some 7, None)) of
      Inl p \<Rightarrow> False
    | Inr m' \<Rightarrow>
        unexpectedRpcErrors_le m' (''l1'', ''blockNumber'') = 1 \<and>
        lastLiveOfAOwner m' 0xA11CE = Some 5 \<and>
        intervalLiveness m' ''interval'' = Some 7 \<and>
        highestBlockNumber m' ''blockNumber'' = Some 0)"
  by (simp add: Run_le_def freshLiveness_def ownerStep_def Uint64_def Inc_def Let_def)

text \<open>
  Claim C7.  When \<open>LastLive\<close> fails for an owner, or \<open>LivenessInterval\<close> fails, the liveness
  expiration monitor counts the error and then calls \<open>Uint64\<close> on the nil result: \<open>Run\<close>
  panics.
\<close>

theorem liveness_LastLive_failure_panics:
  "Run_le (freshLiveness (100, None) (\<lambda>owner. (None, Some ''timeout'')) (Some 7, None)) =
     Inl (Panic ''invalid memory address or nil pointer dereference'') \<and>
   Run_le (freshLiveness (100, None) (\<lambda>owner. (Some 5, None)) (None, Some ''timeout'')) =
     Inl (Panic ''invalid memory address or nil pointer dereference'')"
  by (simp add: Run_le_def freshLiveness_def ownerStep_def Uint64_def Inc_def Let_def)

end
